theory Spec2Isabelle
  imports Main "HOL-Library.Char_ord"
begin

section \<open>Strings and the library functions the router calls\<close>

text \<open>
  A Go string is a sequence of bytes, here a \<open>string\<close> (a list of 8-bit characters).
  The definitions of this section are exact on ASCII strings (every byte below 0x80):
  there a rune is a byte, the index of \<open>range\<close> is the byte index and
  \<open>strings.ToLower\<close>, \<open>strings.ToUpper\<close> change the letters A-Z, a-z only.
  A theorem whose statement depends on what the conversion returns for the names it
  quantifies over carries that restriction as a hypothesis.
\<close>

definition letter :: "char \<Rightarrow> bool" where
  "letter c = ((CHR ''A'' \<le> c \<and> c \<le> CHR ''Z'') \<or> (CHR ''a'' \<le> c \<and> c \<le> CHR ''z''))"

definition letters :: "string \<Rightarrow> bool" where
  "letters s = list_all letter s"

definition toLower :: "char \<Rightarrow> char" where
  "toLower c = (if CHR ''A'' \<le> c \<and> c \<le> CHR ''Z'' then char_of (of_char c + (32::nat)) else c)"

definition toUpper :: "char \<Rightarrow> char" where
  "toUpper c = (if CHR ''a'' \<le> c \<and> c \<le> CHR ''z'' then char_of (of_char c - (32::nat)) else c)"

definition ToLower :: "string \<Rightarrow> string" where
  "ToLower s = map toLower s"

definition ToUpper :: "string \<Rightarrow> string" where
  "ToUpper s = map toUpper s"

text \<open>
  \<open>strings.Split\<close> with a separator of one byte, which is what the three call sites
  pass (\<open>"/"\<close> twice and \<open>WordSeparator\<close>): the pieces between the occurrences of the
  separator, so the result is never empty and \<open>Split "" sep = [""]\<close>.
\<close>

fun Split :: "string \<Rightarrow> char \<Rightarrow> string list" where
  "Split [] sep = [[]]"
| "Split (c # cs) sep =
     (if c = sep then [] # Split cs sep
      else (case Split cs sep of [] \<Rightarrow> [[c]] | w # ws \<Rightarrow> (c # w) # ws))"

fun Join :: "string list \<Rightarrow> string \<Rightarrow> string" where
  "Join [] sep = []"
| "Join [x] sep = x"
| "Join (x # y # ys) sep = x @ sep @ Join (y # ys) sep"

text \<open>
  \<open>strconv.ParseInt(s, 10, 64)\<close>, with the value it returns beside the error: 0 on a
  syntax error, the nearest bound of int64 on a range error.  \<open>ParseUint_loop\<close> is the
  digit loop of \<open>strconv.ParseUint\<close> for base 10 and 64 bits, which leaves at the first
  byte that is no digit or at the first overflow.
\<close>

datatype NumError = ErrSyntax | ErrRange

definition maxUint64 :: nat where
  "maxUint64 = 2 ^ 64 - 1"

fun ParseUint_loop :: "nat \<Rightarrow> string \<Rightarrow> nat \<times> NumError option" where
  "ParseUint_loop n [] = (n, None)"
| "ParseUint_loop n (c # cs) =
     (if \<not> (CHR ''0'' \<le> c \<and> c \<le> CHR ''9'') then (0, Some ErrSyntax)
      else if n \<ge> maxUint64 div 10 + 1 then (maxUint64, Some ErrRange)
      else let n1 = n * 10 + (of_char c - of_char (CHR ''0''))
           in if n1 > maxUint64 then (maxUint64, Some ErrRange)
              else ParseUint_loop n1 cs)"

definition ParseUint :: "string \<Rightarrow> nat \<times> NumError option" where
  "ParseUint s = (if s = [] then (0, Some ErrSyntax) else ParseUint_loop 0 s)"

definition ParseInt :: "string \<Rightarrow> int \<times> NumError option" where
  "ParseInt s0 =
     (if s0 = [] then (0, Some ErrSyntax)
      else let neg = (hd s0 = CHR ''-'');
               s = (if hd s0 = CHR ''+'' \<or> hd s0 = CHR ''-'' then tl s0 else s0);
               (un, err) = ParseUint s
           in if err = Some ErrSyntax then (0, err)
              else if \<not> neg \<and> un \<ge> 2 ^ 63 then (2 ^ 63 - 1, Some ErrRange)
              else if neg \<and> un > 2 ^ 63 then (- (2 ^ 63), Some ErrRange)
              else (if neg then - int un else int un, None))"

section \<open>Name conversion\<close>

definition WordSeparator :: char where
  "WordSeparator = CHR ''_''"

text \<open>The loop of \<open>convertName\<close>: index, remaining runes, buffer.\<close>

fun convertName_loop :: "nat \<Rightarrow> string \<Rightarrow> string \<Rightarrow> string" where
  "convertName_loop i [] buf = buf"
| "convertName_loop i (v # vs) buf =
     convertName_loop (i + 1) vs
       ((if i > 0 \<and> CHR ''A'' \<le> v \<and> v \<le> CHR ''Z'' then buf @ [WordSeparator] else buf) @ [v])"

definition convertName :: "string \<Rightarrow> string" where
  "convertName name = ToLower (convertName_loop 0 name [])"

section \<open>Resources, methods and the router\<close>

datatype go_type = ContextPtr | OtherType string

text \<open>
  What reflection tells about a method: its name, the types of its inputs (the
  receiver first) and the number of its results.
\<close>

record reflect_Method =
  Name :: string
  In :: "go_type list"
  NumOut :: nat

text \<open>
  A resource as \<open>NewRouter\<close> sees it: whether \<open>reflect.TypeOf(v)\<close> is a pointer (\<open>Elem\<close>
  panics otherwise), the name of the type pointed to, the string \<open>v.Gap()\<close> when the
  resource implements \<open>ResourceWithGap\<close>, and the methods of its method set in the
  order of \<open>resType.Method(i)\<close>.
\<close>

record resource =
  isPointer :: bool
  typeName :: string
  Gap :: "string option"
  methods :: "reflect_Method list"

datatype error = Panic

text \<open>A handler is the method value \<open>resValue.Method(i)\<close>: the position of the
  resource among the arguments and the index of the method.\<close>

type_synonym handler = "nat \<times> nat"

text \<open>The two maps of the router; no property below reads its configuration.\<close>

record Router =
  methodMap :: "string \<rightharpoonup> handler"
  gapsMap :: "string \<rightharpoonup> string list"

definition validateMethod :: "reflect_Method \<Rightarrow> error + bool" where
  "validateMethod m =
     (case Name m of
        [] \<Rightarrow> Inl Panic
      | firstLetter # _ \<Rightarrow>
          Inr (if firstLetter < CHR ''A'' \<or> firstLetter > CHR ''Z'' then False
               else if length (In m) \<noteq> 2 then False
               else if NumOut m \<noteq> 0 then False
               else if In m ! 1 \<noteq> ContextPtr then False
               else True))"

text \<open>
  The body of the loop over the methods, from \<open>httpMethod := "GET"\<close> to the key
  \<open>path\<close>, for a method that \<open>validateMethod\<close> accepts.  The slices of \<open>methodName\<close>
  are \<open>take\<close> and \<open>drop\<close>: they are in range where the source takes them (the name
  ends with \<open>_id\<close> when the last of two words or more is \<open>id\<close>, and it goes on after
  the first word and a separator when there are two words or more).
\<close>

definition methodPath :: "bool \<Rightarrow> string \<Rightarrow> string \<Rightarrow> string" where
  "methodPath isIdResource resNameSnake mname =
     (let methodName = convertName mname;
          methodWords = Split methodName WordSeparator;
          hasHttpMethod = (hd methodWords \<in> {''post'', ''get'', ''put'', ''delete''});
          minIdMethodLen = (if hasHttpMethod then 3 else 2 :: nat);
          isIdMethod = (\<not> isIdResource \<and> length methodWords \<ge> minIdMethodLen
                        \<and> last methodWords = ''id'');
          methodName1 = (if isIdMethod then take (length methodName - 3) methodName
                         else methodName);
          methodName2 = (if hasHttpMethod
                         then (if length methodWords > 1
                               then ''/'' @ drop (length (hd methodWords) + 1) methodName1
                               else '''')
                         else ''/'' @ methodName1);
          httpMethod = (if hasHttpMethod then ToUpper (hd methodWords) else ''GET'');
          methodName3 = (if isIdMethod then methodName2 @ ''/:id'' else methodName2);
          methodName4 = (if resNameSnake = '''' \<and> length methodName3 > 0
                         then drop 1 methodName3 else methodName3)
      in httpMethod @ '' /'' @ resNameSnake @ methodName4)"

fun registerMethods ::
  "nat \<Rightarrow> bool \<Rightarrow> string \<Rightarrow> nat \<Rightarrow> reflect_Method list \<Rightarrow> (string \<rightharpoonup> handler)
     \<Rightarrow> error + (string \<rightharpoonup> handler)" where
  "registerMethods k isIdResource resNameSnake i [] mm = Inr mm"
| "registerMethods k isIdResource resNameSnake i (m # ms) mm =
     (case validateMethod m of
        Inl e \<Rightarrow> Inl e
      | Inr False \<Rightarrow> registerMethods k isIdResource resNameSnake (i + 1) ms mm
      | Inr True \<Rightarrow>
          registerMethods k isIdResource resNameSnake (i + 1) ms
            (mm(methodPath isIdResource resNameSnake (Name m) \<mapsto> (k, i))))"

text \<open>
  The head of the loop over the resources: the converted name, the id-resource
  test and the gap.  It gives \<open>resNameSnake\<close> as the methods see it, \<open>isIdResource\<close>
  and the gap table.
\<close>

definition resourcePath ::
  "resource \<Rightarrow> (string \<rightharpoonup> string list) \<Rightarrow> string \<times> bool \<times> (string \<rightharpoonup> string list)" where
  "resourcePath v gm =
     (let resNameSnake = convertName (typeName v);
          resNameSnakeLen = length resNameSnake
      in if resNameSnakeLen > 3 \<and> drop (resNameSnakeLen - 3) resNameSnake = ''_id''
         then (take (resNameSnakeLen - 3) resNameSnake @ ''/:id'', True, gm)
         else (case Gap v of
                 Some gap \<Rightarrow>
                   (resNameSnake @ ''/'' @ gap, False,
                    gm(resNameSnake \<mapsto> Split gap (CHR ''/'')))
               | None \<Rightarrow> (resNameSnake, False, gm)))"

fun registerResources :: "nat \<Rightarrow> resource list \<Rightarrow> Router \<Rightarrow> error + Router" where
  "registerResources k [] router = Inr router"
| "registerResources k (v # vs) router =
     (if \<not> isPointer v then Inl Panic
      else case resourcePath v (gapsMap router) of
        (resNameSnake, isIdResource, gm) \<Rightarrow>
          (case registerMethods k isIdResource resNameSnake 0 (methods v) (methodMap router) of
             Inl e \<Rightarrow> Inl e
           | Inr mm \<Rightarrow> registerResources (k + 1) vs \<lparr>methodMap = mm, gapsMap = gm\<rparr>))"

definition NewRouter :: "resource list \<Rightarrow> error + Router" where
  "NewRouter resources =
     registerResources 0 resources \<lparr>methodMap = Map.empty, gapsMap = Map.empty\<rparr>"

section \<open>Path resolution\<close>

record resolved =
  path :: string
  id :: int
  segments :: "string list"
  gaps :: "string list option"

text \<open>\<open>len(gaps)\<close>, which is 0 for the nil slice of a missing entry.\<close>

definition len_gaps :: "string list option \<Rightarrow> nat" where
  "len_gaps g = (case g of None \<Rightarrow> 0 | Some gs \<Rightarrow> length gs)"

text \<open>The branch of \<open>resolvePath\<close> for \<open>err == nil\<close>: the second segment is an id.\<close>

definition resolveIdPath :: "string \<Rightarrow> string list \<Rightarrow> int \<Rightarrow> resolved" where
  "resolveIdPath path0 segs id0 =
     \<lparr>path = path0 @ ''/:id''
               @ (if length segs > 2 \<and> segs ! 2 \<noteq> [] then ''/'' @ segs ! 2 else []),
      id = id0, segments = segs, gaps = None\<rparr>"

text \<open>
  The other branch: the gap of the resource, the method segment after it, and an id
  segment after that.  The id of the first parse stays when no second parse is made.
\<close>

definition resolveGapPath :: "Router \<Rightarrow> string \<Rightarrow> string list \<Rightarrow> int \<Rightarrow> resolved" where
  "resolveGapPath r path0 segs id0 =
     (let gs = gapsMap r (hd segs);
          path1 = (case gs of None \<Rightarrow> path0
                   | Some g \<Rightarrow> path0 @ ''/'' @ Join g ''/'');
          methodIndex = len_gaps gs + 1;
          path2 = (if length segs > methodIndex \<and> segs ! methodIndex \<noteq> []
                   then path1 @ ''/'' @ segs ! methodIndex else path1);
          nextIndex = methodIndex + 1
      in if length segs > nextIndex \<and> segs ! nextIndex \<noteq> []
         then (case ParseInt (segs ! nextIndex) of
                 (id1, err1) \<Rightarrow>
                   \<lparr>path = (if err1 = None then path2 @ ''/:id'' else path2),
                    id = id1, segments = segs, gaps = gs\<rparr>)
         else \<lparr>path = path2, id = id0, segments = segs, gaps = gs\<rparr>)"

definition resolvePath :: "Router \<Rightarrow> string \<Rightarrow> string \<Rightarrow> resolved" where
  "resolvePath r httpVerb rawPath =
     (let segs = Split rawPath (CHR ''/'');
          httpMethod = (if httpVerb \<in> {''POST'', ''DETETE'', ''PUT''} then httpVerb else ''GET'');
          path0 = httpMethod @ '' /'' @ hd segs;
          seg1 = (if length segs \<ge> 2 then segs ! 1 else []);
          (id0, err0) = ParseInt seg1
      in if err0 = None then resolveIdPath path0 segs id0
         else resolveGapPath r path0 segs id0)"

section \<open>Errors and the log line\<close>

text \<open>
  The package variables with the default status codes.  They can be assigned, so
  the constructors read them from a record of the current values.
\<close>

record Settings =
  RequestErrorStatusCode :: int
  InternalErrorStatusCode :: int
  UnauthorizedStatusCode :: int
  NotFoundStatusCode :: int

definition defaults :: Settings where
  "defaults = \<lparr>RequestErrorStatusCode = 400, InternalErrorStatusCode = 500,
                UnauthorizedStatusCode = 401, NotFoundStatusCode = 404\<rparr>"

text \<open>
  A value of the interface \<open>error\<close> is given by the string its \<open>Error()\<close> returns; a
  value of \<open>interface {}\<close> is an error or any other value, given by the string
  \<open>fmt.Sprint\<close> prints for it.
\<close>

datatype go_error = errorString string

fun go_error_Error :: "go_error \<Rightarrow> string" where
  "go_error_Error (errorString s) = s"

definition errors_New :: "string \<Rightarrow> go_error" where
  "errors_New text = errorString text"

datatype go_value = IsError go_error | NotError (Sprint: string)

text \<open>The two structs; the field \<open>StatusCode\<close> of each has its own name here.\<close>

record RequestError =
  Msg :: string
  StatusCode :: int

record InternalError =
  Err :: go_error
  IStatusCode :: int

definition RequestError_Error :: "RequestError \<Rightarrow> string" where
  "RequestError_Error re = Msg re"

definition RequestError_Status :: "RequestError \<Rightarrow> int" where
  "RequestError_Status re = StatusCode re"

definition RequestError_Message :: "RequestError \<Rightarrow> string" where
  "RequestError_Message re = Msg re"

definition InternalError_Status :: "InternalError \<Rightarrow> int" where
  "InternalError_Status ie = IStatusCode ie"

definition InternalError_Error :: "InternalError \<Rightarrow> string" where
  "InternalError_Error ie = go_error_Error (Err ie)"

definition InternalError_Message :: "InternalError \<Rightarrow> string" where
  "InternalError_Message ie = ''InternalError''"

definition NewRequestError :: "Settings \<Rightarrow> string \<Rightarrow> RequestError" where
  "NewRequestError g message = \<lparr>Msg = message, StatusCode = RequestErrorStatusCode g\<rparr>"

definition NewInternalError :: "Settings \<Rightarrow> go_value \<Rightarrow> InternalError" where
  "NewInternalError g err =
     (case err of
        IsError e \<Rightarrow> \<lparr>Err = e, IStatusCode = InternalErrorStatusCode g\<rparr>
      | NotError s \<Rightarrow> \<lparr>Err = errors_New s, IStatusCode = InternalErrorStatusCode g\<rparr>)"

text \<open>
  A logger is the list of the messages given to its \<open>Printf\<close>, oldest first (the
  prefix and the flags of the logger aside).  Of the configuration, the two loggers
  (\<open>None\<close> for a nil logger); of the context, the fields of the request that \<open>doLog\<close>
  reads and the configuration.
\<close>

type_synonym Logger = "string list"

record Config =
  RequestErrorLogger :: "Logger option"
  InternalErrorLogger :: "Logger option"

record Context =
  RemoteAddr :: string
  UserId :: int
  Method :: string
  RequestURI :: string
  Proto :: string
  written :: int
  config :: Config

text \<open>Decimal digits of a number, as \<open>%d\<close> prints them.\<close>

function decimal :: "nat \<Rightarrow> string" where
  "decimal n = (if n < 10 then [char_of (of_char (CHR ''0'') + n)]
                else decimal (n div 10) @ [char_of (of_char (CHR ''0'') + n mod 10)])"
  by pat_completeness auto
termination
  by (relation "measure (\<lambda>n. n)") auto

declare decimal.simps [simp del]

definition format_d :: "int \<Rightarrow> string" where
  "format_d i = (if i < 0 then CHR ''-'' # decimal (nat (- i)) else decimal (nat i))"

definition dquote :: string where
  "dquote = [CHR 0x22]"

definition newline :: char where
  "newline = CHR 0x0A"

text \<open>
  \<open>fmt.Sprintf(logFormat, ...)\<close> for the nine arguments of \<open>doLog\<close>; \<open>logFormat\<close> is
  \<^verbatim>\<open>%v - %d [%v] "%v %v %v" 200 %d "%v" "%v"\n\<close>.
\<close>

definition Sprintf_logFormat ::
  "string \<Rightarrow> int \<Rightarrow> string \<Rightarrow> string \<Rightarrow> string \<Rightarrow> string \<Rightarrow> int \<Rightarrow> string \<Rightarrow> string \<Rightarrow> string" where
  "Sprintf_logFormat remoteAddr userId time meth uri proto wr errStr stack =
     remoteAddr @ '' - '' @ format_d userId @ '' ['' @ time @ ''] '' @ dquote
       @ meth @ '' '' @ uri @ '' '' @ proto @ dquote @ '' 200 '' @ format_d wr @ '' ''
       @ dquote @ errStr @ dquote @ '' '' @ dquote @ stack @ dquote @ [newline]"

text \<open>\<open>strings.Replace(errStr, "\n", ";", -1)\<close>\<close>

definition Replace_newlines :: "string \<Rightarrow> string" where
  "Replace_newlines s = map (\<lambda>c. if c = newline then CHR '';'' else c) s"

text \<open>
  \<open>doLog\<close> gives the logger after the call; \<open>now\<close> is the string
  \<open>time.Now().Format(timeFormat)\<close>.
\<close>

definition doLog :: "Logger \<Rightarrow> Context \<Rightarrow> string \<Rightarrow> string \<Rightarrow> string \<Rightarrow> Logger" where
  "doLog logger context now errError stack =
     (let errStr = Replace_newlines errError
      in logger @ [Sprintf_logFormat (RemoteAddr context) (UserId context) now (Method context)
                     (RequestURI context) (Proto context) (written context) errStr stack])"

definition RequestError_Log :: "RequestError \<Rightarrow> Context \<Rightarrow> string \<Rightarrow> Context" where
  "RequestError_Log re context now =
     (case RequestErrorLogger (config context) of
        Some logger \<Rightarrow>
          context\<lparr>config := (config context)
                    \<lparr>RequestErrorLogger :=
                       Some (doLog logger context now (RequestError_Error re) ''-'')\<rparr>\<rparr>
      | None \<Rightarrow> context)"

section \<open>Vocabulary of the properties and example inputs\<close>

text \<open>
  The name conversion as the specification words it: the lowercase string, with the
  separator before every uppercase letter except the first character.
\<close>

definition NameConverter_spec :: "string \<Rightarrow> string" where
  "NameConverter_spec name =
     (case name of
        [] \<Rightarrow> []
      | c # cs \<Rightarrow>
          toLower c # concat (map (\<lambda>v. if CHR ''A'' \<le> v \<and> v \<le> CHR ''Z''
                                          then [WordSeparator, toLower v] else [toLower v]) cs))"

text \<open>
  \<open>ctxMethod n\<close> is a method \<open>func (r *T) n(ctx *Context)\<close>; \<open>res n g ms\<close> is a pointer to
  a value of the type named \<open>n\<close>, with the gap \<open>g\<close> and methods of that shape named \<open>ms\<close>.
\<close>

definition ctxMethod :: "string \<Rightarrow> reflect_Method" where
  "ctxMethod n = \<lparr>Name = n, In = [OtherType ''receiver'', ContextPtr], NumOut = 0\<rparr>"

definition res :: "string \<Rightarrow> string option \<Rightarrow> string list \<Rightarrow> resource" where
  "res n g ms = \<lparr>isPointer = True, typeName = n, Gap = g, methods = map ctxMethod ms\<rparr>"

definition exampleContext :: Context where
  "exampleContext = \<lparr>RemoteAddr = ''10.0.0.1:4711'', UserId = 7, Method = ''GET'',
     RequestURI = ''/users/x'', Proto = ''HTTP/1.1'', written = 42,
     config = \<lparr>RequestErrorLogger = Some [], InternalErrorLogger = None\<rparr>\<rparr>"

text \<open>
  What the head of the loop over the resources gives for a resource, whatever the gap
  table is: the path of the resource and whether it is an id-resource.
\<close>

definition resNameSnake_of :: "resource \<Rightarrow> string" where
  "resNameSnake_of v = fst (resourcePath v Map.empty)"

definition isIdResource_of :: "resource \<Rightarrow> bool" where
  "isIdResource_of v = fst (snd (resourcePath v Map.empty))"

text \<open>The key that the loop registers for a method of a resource.\<close>

definition routeKey :: "resource \<Rightarrow> reflect_Method \<Rightarrow> string" where
  "routeKey v m = methodPath (isIdResource_of v) (resNameSnake_of v) (Name m)"

text \<open>
  The registrations in the order in which \<open>NewRouter\<close> makes them: for the resource at
  position \<open>k\<close> and each of its methods of the required shape, at index \<open>i\<close>, the key
  and the handler \<open>(k, i)\<close>.
\<close>

fun methodRegistrations ::
  "nat \<Rightarrow> bool \<Rightarrow> string \<Rightarrow> nat \<Rightarrow> reflect_Method list \<Rightarrow> (string \<times> handler) list" where
  "methodRegistrations k isIdResource resNameSnake i [] = []"
| "methodRegistrations k isIdResource resNameSnake i (m # ms) =
     (if validateMethod m = Inr True
      then [(methodPath isIdResource resNameSnake (Name m), (k, i))] else [])
     @ methodRegistrations k isIdResource resNameSnake (i + 1) ms"

fun registrations :: "nat \<Rightarrow> resource list \<Rightarrow> (string \<times> handler) list" where
  "registrations k [] = []"
| "registrations k (v # vs) =
     methodRegistrations k (isIdResource_of v) (resNameSnake_of v) 0 (methods v)
     @ registrations (k + 1) vs"

text \<open>A resource on which \<open>NewRouter\<close> does not panic.\<close>

definition reflectable :: "resource \<Rightarrow> bool" where
  "reflectable v = (isPointer v \<and> list_all (\<lambda>m. Name m \<noteq> []) (methods v))"

text \<open>Names of bytes below 0x80, where the model of the string functions is exact.\<close>

definition ascii :: "string \<Rightarrow> bool" where
  "ascii s = list_all (\<lambda>c. c < CHR 0x80) s"

text \<open>
  The route key as the specification words it, on the words of the converted method
  name.  Verb detection: a first word among post, get, put, delete is the verb,
  uppercased, and is removed from the path portion; otherwise the verb is GET and all
  the words are the path portion.  Id-method detection: when the resource is no
  id-resource, the path portion has two words or more and the last word is id, that
  word is replaced by the placeholder segment.
\<close>

definition verbWords :: "string set" where
  "verbWords = {''post'', ''get'', ''put'', ''delete''}"

definition spec_verb :: "string list \<Rightarrow> string" where
  "spec_verb ws = (if hd ws \<in> verbWords then ToUpper (hd ws) else ''GET'')"

definition spec_pathWords :: "string list \<Rightarrow> string list" where
  "spec_pathWords ws = (if hd ws \<in> verbWords then tl ws else ws)"

definition spec_isIdMethod :: "bool \<Rightarrow> string list \<Rightarrow> bool" where
  "spec_isIdMethod isIdResource ws =
     (\<not> isIdResource \<and> length (spec_pathWords ws) \<ge> 2 \<and> last ws = ''id'')"

definition spec_methodPath :: "bool \<Rightarrow> string list \<Rightarrow> string" where
  "spec_methodPath isIdResource ws =
     (let idm = spec_isIdMethod isIdResource ws;
          pw = (if idm then butlast (spec_pathWords ws) else spec_pathWords ws)
      in (if pw = [] then '''' else ''/'' @ Join pw [WordSeparator])
         @ (if idm then ''/:id'' else ''''))"

definition spec_routeKey :: "bool \<Rightarrow> string \<Rightarrow> string list \<Rightarrow> string" where
  "spec_routeKey isIdResource resNameSnake ws =
     spec_verb ws @ '' /'' @ resNameSnake
       @ (if resNameSnake = '''' then drop 1 (spec_methodPath isIdResource ws)
          else spec_methodPath isIdResource ws)"

text \<open>
  The pieces of the key that \<open>resolvePath\<close> assembles: the verb of the request, the
  second segment, a segment appended when it is present and not empty, and the gap
  part.
\<close>

definition requestVerb :: "string \<Rightarrow> string" where
  "requestVerb httpVerb = (if httpVerb \<in> {''POST'', ''DETETE'', ''PUT''} then httpVerb else ''GET'')"

definition seg1_of :: "string list \<Rightarrow> string" where
  "seg1_of segs = (if length segs \<ge> 2 then segs ! 1 else '''')"

definition optSeg :: "string list \<Rightarrow> nat \<Rightarrow> string" where
  "optSeg segs i = (if length segs > i \<and> segs ! i \<noteq> '''' then ''/'' @ segs ! i else '''')"

definition gapPart :: "string list option \<Rightarrow> string" where
  "gapPart gs = (case gs of None \<Rightarrow> '''' | Some g \<Rightarrow> ''/'' @ Join g ''/'')"

text \<open>
  The segments of a route key after the verb, and the number of them that are the
  placeholder \<open>:id\<close>.
\<close>

definition pathSegments :: "string \<Rightarrow> string list" where
  "pathSegments key = tl (Split key (CHR ''/''))"

definition idSegments :: "string \<Rightarrow> nat" where
  "idSegments key = count_list (pathSegments key) '':id''"

text \<open>
  The conventions on names under which every registered key is the key of a request:
  a word of lowercase letters; a resource with a type name of letters and, for its
  methods of the required shape, names of letters; and a resource whose entry in the
  gap table of the router is its own gap (no other resource with the same converted
  name has changed it).
\<close>

definition lowerWord :: "string \<Rightarrow> bool" where
  "lowerWord w = (w \<noteq> [] \<and> list_all (\<lambda>c. CHR ''a'' \<le> c \<and> c \<le> CHR ''z'') w)"

definition wellNamed :: "resource \<Rightarrow> bool" where
  "wellNamed v =
     (typeName v \<noteq> [] \<and> letters (typeName v)
      \<and> list_all (\<lambda>m. validateMethod m = Inr True \<longrightarrow> letters (Name m)) (methods v))"

definition ownGap :: "Router \<Rightarrow> resource \<Rightarrow> bool" where
  "ownGap router v =
     (isIdResource_of v
      \<or> gapsMap router (convertName (typeName v)) = map_option (\<lambda>g. Split g (CHR ''/'')) (Gap v))"

section \<open>Rules for evaluating the definitions on concrete inputs\<close>

lemmas char_eval = less_eq_char_def less_char_def char_of_def bit_Suc_0_iff

lemmas name_eval = char_eval toLower_def toUpper_def ToLower_def ToUpper_def
  convertName_def WordSeparator_def

lemmas router_eval = name_eval methodPath_def NewRouter_def resourcePath_def validateMethod_def
  ctxMethod_def res_def Let_def

lemmas parse_eval = ParseInt_def ParseUint_def maxUint64_def less_eq_char_def less_char_def

lemmas resolve_eval = resolvePath_def resolveIdPath_def resolveGapPath_def len_gaps_def parse_eval Let_def

lemmas log_eval = RequestError_Log_def doLog_def Sprintf_logFormat_def Replace_newlines_def
  NewRequestError_def RequestError_Error_def defaults_def exampleContext_def format_d_def
  decimal.simps dquote_def newline_def char_of_def bit_Suc_0_iff

section \<open>Splitting and joining\<close>

lemma Split_not_Nil: "Split s c \<noteq> []"
  by (induction s) (auto split: list.splits)

lemma Join_Cons: "Join (x # xs) sep = (if xs = [] then x else x @ sep @ Join xs sep)"
  by (cases xs) auto

lemma Join_Split: "Join (Split s c) [c] = s"
proof (induction s)
  case Nil
  show ?case by simp
next
  case (Cons a s)
  obtain w ws where ws: "Split s c = w # ws"
    using Split_not_Nil [of s c] by (cases "Split s c") auto
  with Cons show ?case
    by (auto simp: Join_Cons split: if_splits)
qed

lemma Split_no_sep: "c \<notin> set s \<Longrightarrow> Split s c = [s]"
  by (induction s) auto

lemma Split_append: "Split (a @ c # b) c = Split a c @ Split b c"
proof (induction a)
  case Nil
  show ?case by simp
next
  case (Cons x a)
  show ?case
    using Cons Split_not_Nil [of a c] by (cases "Split a c") auto
qed

lemma sep_notin_Split: "w \<in> set (Split s c) \<Longrightarrow> c \<notin> set w"
proof (induction s arbitrary: w)
  case Nil
  then show ?case by simp
next
  case (Cons x s)
  obtain v vs where vs: "Split s c = v # vs"
    using Split_not_Nil [of s c] by (cases "Split s c") auto
  show ?case
  proof (cases "x = c")
    case True
    with Cons show ?thesis by auto
  next
    case False
    with Cons.prems vs have "w = x # v \<or> w \<in> set vs" by auto
    with Cons.IH vs False show ?thesis by auto
  qed
qed

lemma Split_Join:
  "xs \<noteq> [] \<Longrightarrow> (\<forall>w \<in> set xs. c \<notin> set w) \<Longrightarrow> Split (Join xs [c]) c = xs"
proof (induction xs)
  case Nil
  then show ?case by simp
next
  case (Cons x xs)
  show ?case
  proof (cases "xs = []")
    case True
    with Cons.prems show ?thesis by (simp add: Split_no_sep)
  next
    case False
    with Cons have "Split (Join xs [c]) c = xs" by simp
    moreover have "Split x c = [x]" using Cons.prems by (simp add: Split_no_sep)
    ultimately show ?thesis
      using False Split_append [of x c "Join xs [c]"] by (simp add: Join_Cons)
  qed
qed

lemma Join_snoc: "xs \<noteq> [] \<Longrightarrow> Join (xs @ [x]) sep = Join xs sep @ sep @ x"
  by (induction xs) (auto simp: Join_Cons)

section \<open>Name conversion\<close>

lemma convertName_loop_Suc:
  "convertName_loop (Suc i) vs buf =
     buf @ concat (map (\<lambda>v. if CHR ''A'' \<le> v \<and> v \<le> CHR ''Z'' then [WordSeparator, v] else [v]) vs)"
proof (induction vs arbitrary: i buf)
  case Nil
  show ?case by simp
next
  case (Cons v vs)
  show ?case
  proof (cases "CHR ''A'' \<le> v \<and> v \<le> CHR ''Z''")
    case True
    then show ?thesis
      using Cons.IH [of "Suc i" "buf @ [WordSeparator, v]"] by simp
  next
    case False
    then show ?thesis
      using Cons.IH [of "Suc i" "buf @ [v]"] by auto
  qed
qed

lemma toLower_WordSeparator: "toLower WordSeparator = WordSeparator"
  by (simp add: toLower_def WordSeparator_def less_eq_char_def)

lemma convertName_Cons:
  "convertName (c # cs) =
     toLower c # concat (map (\<lambda>v. if CHR ''A'' \<le> v \<and> v \<le> CHR ''Z''
                                     then [WordSeparator, toLower v] else [toLower v]) cs)"
proof -
  have "convertName_loop 0 (c # cs) [] = convertName_loop (Suc 0) cs [c]"
    by simp
  then have "convertName (c # cs) =
     toLower c # concat (map (map toLower \<circ> (\<lambda>v. if CHR ''A'' \<le> v \<and> v \<le> CHR ''Z''
                                     then [WordSeparator, v] else [v])) cs)"
    by (simp add: convertName_def ToLower_def convertName_loop_Suc map_concat)
  moreover have "map toLower \<circ> (\<lambda>v. if CHR ''A'' \<le> v \<and> v \<le> CHR ''Z''
                                     then [WordSeparator, v] else [v])
     = (\<lambda>v. if CHR ''A'' \<le> v \<and> v \<le> CHR ''Z''
                                     then [WordSeparator, toLower v] else [toLower v])"
    by (auto simp: fun_eq_iff toLower_WordSeparator)
  ultimately show ?thesis by simp
qed

lemma convertName_Nil: "convertName [] = []"
  by (simp add: convertName_def ToLower_def)

lemma toLower_letter:
  "letter c \<Longrightarrow> CHR ''a'' \<le> toLower c \<and> toLower c \<le> CHR ''z''"
  by (auto simp: letter_def toLower_def less_eq_char_def)

lemma convertName_length:
  "length (convertName name)
     = length name + length (filter (\<lambda>v. CHR ''A'' \<le> v \<and> v \<le> CHR ''Z'') (tl name))"
proof (cases name)
  case Nil
  then show ?thesis by (simp add: convertName_Nil)
next
  case (Cons c cs)
  have "length (concat (map (\<lambda>v. if CHR ''A'' \<le> v \<and> v \<le> CHR ''Z''
                                   then [WordSeparator, toLower v] else [toLower v]) cs))
      = length cs + length (filter (\<lambda>v. CHR ''A'' \<le> v \<and> v \<le> CHR ''Z'') cs)"
    by (induction cs) auto
  with Cons show ?thesis by (simp add: convertName_Cons)
qed

lemma convertName_lowercase:
  assumes "letters name"
  shows "list_all (\<lambda>c. (CHR ''a'' \<le> c \<and> c \<le> CHR ''z'') \<or> c = WordSeparator) (convertName name)"
proof (cases name)
  case Nil
  then show ?thesis by (simp add: convertName_Nil)
next
  case (Cons c cs)
  with assms have c: "letter c" and cs: "letters cs" by (simp_all add: letters_def)
  from cs have "list_all (\<lambda>c. (CHR ''a'' \<le> c \<and> c \<le> CHR ''z'') \<or> c = WordSeparator)
      (concat (map (\<lambda>v. if CHR ''A'' \<le> v \<and> v \<le> CHR ''Z''
                          then [WordSeparator, toLower v] else [toLower v]) cs))"
    by (induction cs) (auto simp: letters_def toLower_letter)
  with c Cons show ?thesis by (simp add: convertName_Cons toLower_letter)
qed

text \<open>
  C6.  For every identifier made of letters only, \<open>convertName\<close> returns the lowercase
  string with the word separator before every uppercase letter except the first
  character: it is the conversion as the specification words it, it is longer than
  the name by the number of uppercase letters after the first character, and it is
  made of lowercase letters and separators.  Consecutive uppercase letters get a
  separator each, so \<open>"UsersID"\<close> becomes \<open>"users_i_d"\<close>, not \<open>"users_id"\<close>.
\<close>

theorem convertName_per_letter:
  "letters name \<Longrightarrow>
   convertName name = NameConverter_spec name
   \<and> length (convertName name)
       = length name + length (filter (\<lambda>v. CHR ''A'' \<le> v \<and> v \<le> CHR ''Z'') (tl name))
   \<and> list_all (\<lambda>c. (CHR ''a'' \<le> c \<and> c \<le> CHR ''z'') \<or> c = WordSeparator) (convertName name)
   \<and> convertName ''UsersID'' = ''users_i_d'' \<and> convertName ''UsersID'' \<noteq> ''users_id''"
proof -
  assume l: "letters name"
  have "convertName name = NameConverter_spec name"
    by (cases name) (simp_all add: NameConverter_spec_def convertName_Cons convertName_Nil)
  moreover have "convertName ''UsersID'' = ''users_i_d''"
    by (simp add: name_eval)
  ultimately show ?thesis
    using convertName_length [of name] convertName_lowercase [OF l] by simp
qed

theorem convertName_per_letter_witness:
  "letters ''UsersID'' \<and> convertName ''UsersID'' = NameConverter_spec ''UsersID''
   \<and> length (convertName ''UsersID'') = 9
   \<and> convertName ''UsersID'' = ''users_i_d'' \<and> convertName ''UsersID'' \<noteq> ''users_id''"
  using convertName_per_letter [of "''UsersID''"]
  by (simp add: letters_def letter_def NameConverter_spec_def name_eval)

section \<open>The verb of a request\<close>

text \<open>
  C2.  The resolver passes POST and PUT through, but it compares with the literal
  \<open>"DETETE"\<close>: a DELETE request is resolved with the verb GET, so the key that
  \<open>NewRouter\<close> registers for the method \<open>DeleteFoo\<close> of \<open>Users\<close> is not the key of the
  request \<open>DELETE users/foo\<close>, and the method string \<open>"DETETE"\<close> is passed through.
\<close>

theorem resolvePath_DELETE_resolves_as_GET:
  "NewRouter [res ''Users'' None [''DeleteFoo'']]
     = Inr \<lparr>methodMap = [''DELETE /users/foo'' \<mapsto> (0, 0)], gapsMap = Map.empty\<rparr>
   \<and> path (resolvePath \<lparr>methodMap = [''DELETE /users/foo'' \<mapsto> (0, 0)], gapsMap = Map.empty\<rparr>
              ''DELETE'' ''users/foo'') = ''GET /users/foo''
   \<and> path (resolvePath \<lparr>methodMap = [''DELETE /users/foo'' \<mapsto> (0, 0)], gapsMap = Map.empty\<rparr>
              ''DETETE'' ''users/foo'') = ''DETETE /users/foo''"
  by (simp add: router_eval resolve_eval)

section \<open>Errors\<close>

text \<open>
  C9.  For every value \<open>v\<close>, \<open>NewInternalError v\<close> has the message \<open>"InternalError"\<close> and
  the status of the package variable \<open>InternalErrorStatusCode\<close>, 500 by default; a
  value that is no error is wrapped as \<open>errors.New(fmt.Sprint(v))\<close>, so \<open>Error()\<close>
  returns its string form, and an error is wrapped as it is.
\<close>

theorem NewInternalError_message_status_cause:
  "InternalError_Message (NewInternalError g v) = ''InternalError''
   \<and> InternalError_Status (NewInternalError g v) = InternalErrorStatusCode g
   \<and> InternalErrorStatusCode defaults = 500
   \<and> Err (NewInternalError g (NotError s)) = errors_New s
   \<and> InternalError_Error (NewInternalError g (NotError s)) = s
   \<and> Err (NewInternalError g (IsError e)) = e"
  by (cases v) (simp_all add: InternalError_Message_def InternalError_Status_def
      NewInternalError_def defaults_def InternalError_Error_def errors_New_def)

text \<open>
  C4, as stated, fails: the stack field of the line that \<open>RequestError.Log\<close> prints is
  not empty.  For the request error \<open>"bad id"\<close> the line ends with \<open>"-"\<close>.
\<close>

theorem RequestError_Log_stack_not_empty:
  "RequestErrorLogger (config (RequestError_Log (NewRequestError defaults ''bad id'') exampleContext
       ''01/Nov/2026:10:00:00 +0000''))
     = Some [''10.0.0.1:4711 - 7 [01/Nov/2026:10:00:00 +0000] '' @ dquote
             @ ''GET /users/x HTTP/1.1'' @ dquote @ '' 200 42 '' @ dquote @ ''bad id'' @ dquote
             @ '' '' @ dquote @ ''-'' @ dquote @ [newline]]
   \<and> RequestErrorLogger (config (RequestError_Log (NewRequestError defaults ''bad id'') exampleContext
       ''01/Nov/2026:10:00:00 +0000''))
     \<noteq> Some [''10.0.0.1:4711 - 7 [01/Nov/2026:10:00:00 +0000] '' @ dquote
             @ ''GET /users/x HTTP/1.1'' @ dquote @ '' 200 42 '' @ dquote @ ''bad id'' @ dquote
             @ '' '' @ dquote @ '''' @ dquote @ [newline]]"
  by (simp add: log_eval)

text \<open>
  C4, amended.  For every request error logged with a request-error logger
  configured, the logger receives one more line, the format applied to the fields of
  the context, the error string with its newlines replaced, and the stack string
  \<open>"-"\<close>: the line ends with the quoted field \<open>"-"\<close>.
\<close>

theorem RequestError_Log_stack_dash:
  "RequestErrorLogger (config context) = Some logger \<Longrightarrow>
   RequestErrorLogger (config (RequestError_Log re context now))
     = Some (logger @ [Sprintf_logFormat (RemoteAddr context) (UserId context) now (Method context)
                     (RequestURI context) (Proto context) (written context)
                     (Replace_newlines (Msg re)) ''-''])
   \<and> (\<exists>fields. Sprintf_logFormat (RemoteAddr context) (UserId context) now (Method context)
                     (RequestURI context) (Proto context) (written context)
                     (Replace_newlines (Msg re)) ''-''
               = fields @ '' '' @ dquote @ ''-'' @ dquote @ [newline])"
  by (simp add: RequestError_Log_def doLog_def RequestError_Error_def Sprintf_logFormat_def)

theorem RequestError_Log_stack_dash_witness:
  "RequestErrorLogger (config exampleContext) = Some []
   \<and> RequestErrorLogger (config (RequestError_Log (NewRequestError defaults ''bad id'') exampleContext
       ''01/Nov/2026:10:00:00 +0000''))
     = Some [''10.0.0.1:4711 - 7 [01/Nov/2026:10:00:00 +0000] '' @ dquote
             @ ''GET /users/x HTTP/1.1'' @ dquote @ '' 200 42 '' @ dquote @ ''bad id'' @ dquote
             @ '' '' @ dquote @ ''-'' @ dquote @ [newline]]"
  using RequestError_Log_stack_dash [of exampleContext "[]" "NewRequestError defaults ''bad id''"
      "''01/Nov/2026:10:00:00 +0000''"]
  by (simp add: log_eval)

section \<open>The registrations of \<open>NewRouter\<close>\<close>

lemma resourcePath_parts:
  "resourcePath v gm =
     (resNameSnake_of v, isIdResource_of v,
      if isIdResource_of v then gm
      else (case Gap v of Some gap \<Rightarrow> gm(convertName (typeName v) \<mapsto> Split gap (CHR ''/''))
            | None \<Rightarrow> gm))"
  by (simp add: resourcePath_def resNameSnake_of_def isIdResource_of_def Let_def
      split: option.splits)

lemma registerMethods_registrations:
  "registerMethods k isId rns i ms mm = Inr mm' \<Longrightarrow>
   mm' = mm ++ map_of (rev (methodRegistrations k isId rns i ms))"
proof (induction ms arbitrary: i mm)
  case Nil
  then show ?case by simp
next
  case (Cons m ms)
  show ?case
  proof (cases "validateMethod m")
    case (Inl e)
    with Cons.prems show ?thesis by simp
  next
    case (Inr b)
    show ?thesis
    proof (cases b)
      case True
      with Inr Cons.prems
      have "registerMethods k isId rns (i + 1) ms (mm(methodPath isId rns (Name m) \<mapsto> (k, i))) = Inr mm'"
        by simp
      from Cons.IH [OF this]
      have "mm' = mm(methodPath isId rns (Name m) \<mapsto> (k, i))
                    ++ map_of (rev (methodRegistrations k isId rns (i + 1) ms))" .
      moreover have "mm ++ map_of (rev (methodRegistrations k isId rns i (m # ms)))
                 = mm(methodPath isId rns (Name m) \<mapsto> (k, i))
                    ++ map_of (rev (methodRegistrations k isId rns (i + 1) ms))"
        using Inr True by simp
      ultimately show ?thesis by simp
    next
      case False
      with Inr Cons.prems have "registerMethods k isId rns (i + 1) ms mm = Inr mm'"
        by simp
      from Cons.IH [OF this] Inr False show ?thesis by simp
    qed
  qed
qed

lemma registerMethods_returns:
  "list_all (\<lambda>m. Name m \<noteq> []) ms \<Longrightarrow> \<exists>mm'. registerMethods k isId rns i ms mm = Inr mm'"
proof (induction ms arbitrary: i mm)
  case Nil
  show ?case by simp
next
  case (Cons m ms)
  from Cons.prems obtain b where "validateMethod m = Inr b"
    by (cases "Name m") (auto simp: validateMethod_def)
  with Cons show ?case by (cases b) auto
qed

lemma registerResources_registrations:
  "registerResources k vs router = Inr router' \<Longrightarrow>
   methodMap router' = methodMap router ++ map_of (rev (registrations k vs))"
proof (induction vs arbitrary: k router)
  case Nil
  then show ?case by simp
next
  case (Cons v vs)
  from Cons.prems have ptr: "isPointer v" by (auto split: if_splits)
  from Cons.prems ptr obtain mm where
    mm: "registerMethods k (isIdResource_of v) (resNameSnake_of v) 0 (methods v) (methodMap router) = Inr mm"
    by (auto simp: resourcePath_parts split: sum.splits)
  with Cons.prems ptr obtain gm where
    rest: "registerResources (k + 1) vs \<lparr>methodMap = mm, gapsMap = gm\<rparr> = Inr router'"
    by (auto simp: resourcePath_parts)
  from Cons.IH [OF rest] registerMethods_registrations [OF mm]
  show ?case by simp
qed

lemma registerResources_returns:
  "list_all reflectable vs \<Longrightarrow> \<exists>router'. registerResources k vs router = Inr router'"
proof (induction vs arbitrary: k router)
  case Nil
  show ?case by simp
next
  case (Cons v vs)
  then have "list_all (\<lambda>m. Name m \<noteq> []) (methods v)" and ptr: "isPointer v"
    by (simp_all add: reflectable_def)
  then obtain mm where
    "registerMethods k (isIdResource_of v) (resNameSnake_of v) 0 (methods v) (methodMap router) = Inr mm"
    using registerMethods_returns by blast
  with Cons ptr show ?case by (simp add: resourcePath_parts)
qed

lemma map_of_rev_last:
  "j < length l \<Longrightarrow> (\<forall>i. j < i \<and> i < length l \<longrightarrow> fst (l ! i) \<noteq> fst (l ! j)) \<Longrightarrow>
   map_of (rev l) (fst (l ! j)) = Some (snd (l ! j))"
proof (induction l rule: rev_induct)
  case Nil
  then show ?case by simp
next
  case (snoc x xs)
  show ?case
  proof (cases "j = length xs")
    case True
    then show ?thesis by simp
  next
    case False
    with snoc.prems have j: "j < length xs" by simp
    from snoc.prems(2) [rule_format, of "length xs"] j
    have ne: "fst x \<noteq> fst (xs ! j)" by (simp add: nth_append)
    have "\<forall>i. j < i \<and> i < length xs \<longrightarrow> fst (xs ! i) \<noteq> fst (xs ! j)"
    proof (intro allI impI)
      fix i assume i: "j < i \<and> i < length xs"
      with snoc.prems(2) [rule_format, of i] j
      show "fst (xs ! i) \<noteq> fst (xs ! j)" by (simp add: nth_append)
    qed
    from snoc.IH [OF j this] ne j show ?thesis by (simp add: nth_append)
  qed
qed

text \<open>
  C8.  \<open>NewRouter\<close> raises no error on resources that produce the same route key:
  it returns a router on every list of resources that reflection accepts.  In the
  table, each registration that no later registration repeats the key of holds its
  own handler, so of several registrations with one key the last is the one the table
  holds; the keys of the table are the keys of the registrations, so every other
  entry is as it is without the duplicate.
\<close>

theorem duplicate_registration_later_wins:
  "list_all reflectable resources \<Longrightarrow>
   \<exists>router. NewRouter resources = Inr router
     \<and> (\<forall>j < length (registrations 0 resources).
           (\<forall>i. j < i \<and> i < length (registrations 0 resources)
                \<longrightarrow> fst (registrations 0 resources ! i) \<noteq> fst (registrations 0 resources ! j))
           \<longrightarrow> methodMap router (fst (registrations 0 resources ! j))
                 = Some (snd (registrations 0 resources ! j)))
     \<and> dom (methodMap router) = fst ` set (registrations 0 resources)"
proof -
  assume "list_all reflectable resources"
  then obtain router where r: "NewRouter resources = Inr router"
    unfolding NewRouter_def using registerResources_returns by blast
  then have mm: "methodMap router = map_of (rev (registrations 0 resources))"
    unfolding NewRouter_def using registerResources_registrations by fastforce
  have "dom (methodMap router) = fst ` set (registrations 0 resources)"
    by (simp add: mm dom_map_of_conv_image_fst)
  with r mm show ?thesis
    by (auto simp: map_of_rev_last)
qed

theorem duplicate_registration_later_wins_witness:
  "list_all reflectable [res ''Users'' None [''Foo''], res ''Users'' None [''Bar'', ''Foo'']]
   \<and> registrations 0 [res ''Users'' None [''Foo''], res ''Users'' None [''Bar'', ''Foo'']]
       = [(''GET /users/foo'', (0, 0)), (''GET /users/bar'', (1, 0)), (''GET /users/foo'', (1, 1))]
   \<and> NewRouter [res ''Users'' None [''Foo''], res ''Users'' None [''Bar'', ''Foo'']]
       = Inr \<lparr>methodMap = [''GET /users/foo'' \<mapsto> (0, 0), ''GET /users/bar'' \<mapsto> (1, 0),
                            ''GET /users/foo'' \<mapsto> (1, 1)],
              gapsMap = Map.empty\<rparr>
   \<and> (\<exists>router. NewRouter [res ''Users'' None [''Foo''], res ''Users'' None [''Bar'', ''Foo'']]
                  = Inr router
         \<and> methodMap router ''GET /users/foo'' = Some (1, 1)
         \<and> methodMap router ''GET /users/bar'' = Some (1, 0)
         \<and> dom (methodMap router) = {''GET /users/foo'', ''GET /users/bar''})"
  using duplicate_registration_later_wins
    [of "[res ''Users'' None [''Foo''], res ''Users'' None [''Bar'', ''Foo'']]"]
  by (simp add: reflectable_def router_eval resNameSnake_of_def isIdResource_of_def insert_commute)

section \<open>The keys of the table\<close>

lemma methodRegistrations_keys:
  "fst ` set (methodRegistrations k isId rns i ms)
     = {methodPath isId rns (Name m) | m. m \<in> set ms \<and> validateMethod m = Inr True}"
proof (induction ms arbitrary: i)
  case Nil
  show ?case by simp
next
  case (Cons m ms)
  show ?case
    by (simp add: image_Un Cons.IH) blast
qed

lemma registrations_keys:
  "fst ` set (registrations k vs)
     = {routeKey v m | v m. v \<in> set vs \<and> m \<in> set (methods v) \<and> validateMethod m = Inr True}"
proof (induction vs arbitrary: k)
  case Nil
  show ?case by simp
next
  case (Cons v vs)
  show ?case
    by (simp add: image_Un Cons.IH methodRegistrations_keys routeKey_def) blast
qed

lemma NewRouter_dom:
  assumes "NewRouter resources = Inr router"
  shows "dom (methodMap router)
     = {routeKey v m | v m. v \<in> set resources \<and> m \<in> set (methods v) \<and> validateMethod m = Inr True}"
proof -
  from assms have "methodMap router = map_of (rev (registrations 0 resources))"
    unfolding NewRouter_def using registerResources_registrations by fastforce
  then show ?thesis
    by (simp add: dom_map_of_conv_image_fst registrations_keys)
qed

lemma take_Join_id:
  assumes "length ws \<ge> 2" "last ws = ''id''"
  shows "take (length (Join ws [c]) - 3) (Join ws [c]) = Join (butlast ws) [c]"
proof -
  from assms have ne: "butlast ws \<noteq> []" by (cases ws) (auto split: if_splits)
  from assms have "ws = butlast ws @ [''id'']"
    by (metis append_butlast_last_id length_0_conv not_numeral_le_zero)
  then have "Join ws [c] = Join (butlast ws) [c] @ [c] @ ''id''"
    using Join_snoc [OF ne, of "''id''" "[c]"] by simp
  then show ?thesis by simp
qed

lemma drop_Join_hd:
  "rest \<noteq> [] \<Longrightarrow> drop (length w + 1) (Join (w # rest) [c]) = Join rest [c]"
  by (simp add: Join_Cons)

text \<open>The slices that \<open>NewRouter\<close> takes of the converted method name are in range.\<close>

lemma methodPath_slices_in_range:
  assumes "ws = Split methodName WordSeparator"
  shows "(length ws \<ge> 2 \<and> last ws = ''id'' \<longrightarrow> 3 \<le> length methodName)
     \<and> (length ws > 1 \<longrightarrow> length (hd ws) + 1 \<le> length methodName)
     \<and> (length ws \<ge> 3 \<and> last ws = ''id'' \<longrightarrow> length (hd ws) + 1 \<le> length methodName - 3)"
proof -
  have mn: "methodName = Join ws [WordSeparator]" by (simp add: assms Join_Split)
  have "ws \<noteq> []" by (simp add: assms Split_not_Nil)
  then obtain w rest where ws: "ws = w # rest" by (cases ws) auto
  have a: "3 \<le> length methodName" if "length ws \<ge> 2" "last ws = ''id''"
  proof -
    have "take (length methodName - 3) methodName = Join (butlast ws) [WordSeparator]"
      unfolding mn using take_Join_id [OF that] .
    moreover have "methodName = Join (butlast ws) [WordSeparator] @ [WordSeparator] @ ''id''"
    proof -
      from that have ne: "butlast ws \<noteq> []" by (cases ws) (auto split: if_splits)
      from that have "ws = butlast ws @ [''id'']"
        by (metis append_butlast_last_id length_0_conv not_numeral_le_zero)
      then show ?thesis
        using Join_snoc [OF ne, of "''id''" "[WordSeparator]"] mn by simp
    qed
    ultimately show ?thesis by (metis length_append length_Cons list.size(3) add_leD2
          One_nat_def Suc_eq_plus1 numeral_3_eq_3 le_add2 add.commute)
  qed
  have b: "length w + 1 \<le> length (Join (w # r) [WordSeparator])" if "r \<noteq> []" for r
    using that by (simp add: Join_Cons)
  have c: "length (hd ws) + 1 \<le> length methodName - 3" if "length ws \<ge> 3" "last ws = ''id''"
  proof -
    from that have "length ws \<ge> 2" by simp
    from take_Join_id [OF this that(2), of WordSeparator]
    have "length methodName - 3 = length (Join (butlast ws) [WordSeparator])"
      unfolding mn by (metis length_take min.absorb2 diff_le_self)
    moreover from that ws have "butlast ws = w # butlast rest" and "butlast rest \<noteq> []"
      by (cases rest; auto split: if_splits)+
    ultimately show ?thesis using b ws by simp
  qed
  from a b c ws mn show ?thesis by (cases rest) auto
qed

lemma methodPath_spec:
  "methodPath isId rns mname = spec_routeKey isId rns (Split (convertName mname) WordSeparator)"
proof -
  define cn where "cn = convertName mname"
  define ws where "ws = Split cn WordSeparator"
  have cn: "cn = Join ws [WordSeparator]" by (simp add: ws_def Join_Split)
  obtain w rest where ws: "ws = w # rest"
    using Split_not_Nil [of cn WordSeparator] by (cases ws) (auto simp: ws_def)
  show ?thesis
  proof (cases "w \<in> verbWords")
    case verb: True
    show ?thesis
    proof (cases "spec_isIdMethod isId ws")
      case True
      with verb ws have len: "length rest \<ge> 2" and l: "last ws = ''id''" and nid: "\<not> isId"
        by (auto simp: spec_isIdMethod_def spec_pathWords_def)
      then have rne: "butlast rest \<noteq> []" by (cases rest) (auto split: if_splits)
      from len have rne0: "rest \<noteq> []" by auto
      with l ws have l': "last rest = ''id''" by simp
      from len have "take (length cn - 3) cn = Join (butlast ws) [WordSeparator]"
        unfolding cn using take_Join_id [of ws WordSeparator] l ws by simp
      also have "butlast ws = w # butlast rest" using ws len by auto
      finally have "drop (length w + 1) (take (length cn - 3) cn) = Join (butlast rest) [WordSeparator]"
        using drop_Join_hd [OF rne] by simp
      with verb True len l l' nid rne rne0 ws show ?thesis
        unfolding methodPath_def spec_routeKey_def spec_methodPath_def spec_verb_def
          spec_pathWords_def Let_def cn_def [symmetric] ws_def [symmetric]
        by (simp add: verbWords_def)
    next
      case False
      have "rest \<noteq> [] \<Longrightarrow> drop (length w + 1) cn = Join rest [WordSeparator]"
        unfolding cn ws using drop_Join_hd by simp
      with verb False ws show ?thesis
        unfolding methodPath_def spec_routeKey_def spec_methodPath_def spec_verb_def
          spec_pathWords_def Let_def cn_def [symmetric] ws_def [symmetric]
        by (auto simp: verbWords_def spec_isIdMethod_def spec_pathWords_def)
    qed
  next
    case noverb: False
    show ?thesis
    proof (cases "spec_isIdMethod isId ws")
      case True
      with noverb ws have len: "length ws \<ge> 2" and l: "last ws = ''id''" and nid: "\<not> isId"
        by (auto simp: spec_isIdMethod_def spec_pathWords_def)
      then have bne: "butlast ws \<noteq> []" by (cases ws) (auto split: if_splits)
      from len l have "take (length cn - 3) cn = Join (butlast ws) [WordSeparator]"
        unfolding cn using take_Join_id [of ws WordSeparator] by simp
      with noverb True len l nid bne ws show ?thesis
        unfolding methodPath_def spec_routeKey_def spec_methodPath_def spec_verb_def
          spec_pathWords_def Let_def cn_def [symmetric] ws_def [symmetric]
        by (simp add: verbWords_def)
    next
      case False
      with noverb ws cn show ?thesis
        unfolding methodPath_def spec_routeKey_def spec_methodPath_def spec_verb_def
          spec_pathWords_def Let_def cn_def [symmetric] ws_def [symmetric]
        by (auto simp: verbWords_def spec_isIdMethod_def spec_pathWords_def)
    qed
  qed
qed

section \<open>Routes of the conventions\<close>

lemmas key_eval = router_eval resNameSnake_of_def isIdResource_of_def routeKey_def

text \<open>
  C7, as stated, fails for an id-method: for the method \<open>FooId\<close> of the resource \<open>Baz\<close>
  the verb is GET, the converted name is \<open>foo_id\<close>, and the key is
  \<open>GET /baz/foo/:id\<close>; the whole converted name is not the path portion, and no key
  \<open>GET /baz/foo_id\<close> is registered.
\<close>

theorem id_method_path_portion:
  "convertName ''FooId'' = ''foo_id''
   \<and> NewRouter [res ''Baz'' None [''FooId'']]
       = Inr \<lparr>methodMap = [''GET /baz/foo/:id'' \<mapsto> (0, 0)], gapsMap = Map.empty\<rparr>
   \<and> [''GET /baz/foo/:id'' \<mapsto> (0, 0 :: nat)] ''GET /baz/foo_id'' = (None :: handler option)"
  by (simp add: router_eval)

text \<open>
  C7, amended.  For every method of the required shape of a resource given to
  \<open>NewRouter\<close>, the key registered is the key of the specification on the words of the
  converted method name: a first word among post, get, put, delete is the verb,
  uppercased, and is removed from the path portion, which is empty when it was the
  only word; otherwise the verb is GET and the whole converted name is the path
  portion; and for an id-method (the resource no id-resource, two words or more in
  the path portion, the last word id) the last word of the path portion is replaced
  by the segment \<open>/:id\<close>.  The method \<open>PostBar\<close> of \<open>Baz\<close> registers \<open>POST /baz/bar\<close>.
\<close>

theorem verb_detection:
  assumes "NewRouter resources = Inr router" and "v \<in> set resources"
    and "m \<in> set (methods v)" and "validateMethod m = Inr True"
    and "ascii (typeName v)" and "ascii (Name m)"
  shows "routeKey v m \<in> dom (methodMap router)
     \<and> routeKey v m = spec_routeKey (isIdResource_of v) (resNameSnake_of v)
                         (Split (convertName (Name m)) WordSeparator)
     \<and> NewRouter [res ''Baz'' None [''PostBar'']]
         = Inr \<lparr>methodMap = [''POST /baz/bar'' \<mapsto> (0, 0)], gapsMap = Map.empty\<rparr>"
proof -
  from assms have "routeKey v m \<in> dom (methodMap router)"
    by (auto simp: NewRouter_dom)
  moreover have "routeKey v m = spec_routeKey (isIdResource_of v) (resNameSnake_of v)
                         (Split (convertName (Name m)) WordSeparator)"
    by (simp add: routeKey_def methodPath_spec)
  moreover have "NewRouter [res ''Baz'' None [''PostBar'']]
         = Inr \<lparr>methodMap = [''POST /baz/bar'' \<mapsto> (0, 0)], gapsMap = Map.empty\<rparr>"
    by (simp add: router_eval)
  ultimately show ?thesis by simp
qed

theorem verb_detection_witness:
  "NewRouter [res ''Baz'' None [''PostBar'']]
         = Inr \<lparr>methodMap = [''POST /baz/bar'' \<mapsto> (0, 0)], gapsMap = Map.empty\<rparr>
   \<and> res ''Baz'' None [''PostBar''] \<in> set [res ''Baz'' None [''PostBar'']]
   \<and> ctxMethod ''PostBar'' \<in> set (methods (res ''Baz'' None [''PostBar'']))
   \<and> validateMethod (ctxMethod ''PostBar'') = Inr True
   \<and> ascii (typeName (res ''Baz'' None [''PostBar'']))
   \<and> ascii (Name (ctxMethod ''PostBar''))
   \<and> routeKey (res ''Baz'' None [''PostBar'']) (ctxMethod ''PostBar'') = ''POST /baz/bar''
   \<and> spec_routeKey False ''baz'' [''post'', ''bar''] = ''POST /baz/bar''
   \<and> ''POST /baz/bar'' \<in> dom [''POST /baz/bar'' \<mapsto> (0 :: nat, 0 :: nat)]"
  using verb_detection [of "[res ''Baz'' None [''PostBar'']]"
      "\<lparr>methodMap = [''POST /baz/bar'' \<mapsto> (0, 0)], gapsMap = Map.empty\<rparr>"
      "res ''Baz'' None [''PostBar'']" "ctxMethod ''PostBar''"]
  by (simp add: key_eval ascii_def spec_routeKey_def spec_methodPath_def spec_verb_def
      spec_pathWords_def spec_isIdMethod_def verbWords_def)

lemma convertName_append_Id:
  assumes "name \<noteq> []"
  shows "convertName (name @ ''Id'') = convertName name @ ''_id''"
proof -
  from assms obtain c cs where "name = c # cs" by (cases name) auto
  then show ?thesis
    by (simp add: convertName_Cons toLower_def WordSeparator_def char_eval)
qed

text \<open>
  C5, as stated, fails for the resource whose type name is \<open>Id\<close> itself: the converted
  name \<open>id\<close> is not longer than three bytes, the resource is no id-resource, and its
  method \<open>Foo\<close> registers \<open>GET /id/foo\<close>, not \<open>GET //:id/foo\<close>.
\<close>

theorem resource_named_Id:
  "NewRouter [res ''Id'' None [''Foo'']]
       = Inr \<lparr>methodMap = [''GET /id/foo'' \<mapsto> (0, 0)], gapsMap = Map.empty\<rparr>
   \<and> ''GET /'' @ convertName '''' @ ''/:id/foo'' = ''GET //:id/foo''
   \<and> [''GET /id/foo'' \<mapsto> (0, 0 :: nat)] ''GET //:id/foo'' = (None :: handler option)"
  by (simp add: router_eval)

text \<open>
  C5, amended.  For every resource whose type name is a nonempty name followed by
  \<open>Id\<close>, and every method \<open>Foo\<close> of it of the required shape, the key registered is
  \<open>GET /<snake(name)>/:id/foo\<close>.  The resource \<open>UsersId\<close> with the method \<open>ImageUrl\<close>
  registers \<open>GET /users/:id/image_url\<close>, and the request GET \<open>users/5/image_url\<close>
  resolves to that key with the id 5.
\<close>

theorem id_resource_route:
  assumes "NewRouter resources = Inr router" and "v \<in> set resources"
    and "typeName v = name @ ''Id''" and "name \<noteq> []" and "ascii name"
    and "m \<in> set (methods v)" and "validateMethod m = Inr True" and "Name m = ''Foo''"
  shows "routeKey v m = ''GET /'' @ convertName name @ ''/:id/foo''
     \<and> routeKey v m \<in> dom (methodMap router)
     \<and> NewRouter [res ''UsersId'' None [''ImageUrl'']]
         = Inr \<lparr>methodMap = [''GET /users/:id/image_url'' \<mapsto> (0, 0)], gapsMap = Map.empty\<rparr>
     \<and> resolvePath \<lparr>methodMap = [''GET /users/:id/image_url'' \<mapsto> (0, 0)], gapsMap = Map.empty\<rparr>
           ''GET'' ''users/5/image_url''
         = \<lparr>path = ''GET /users/:id/image_url'', id = 5,
            segments = [''users'', ''5'', ''image_url''], gaps = None\<rparr>"
proof -
  have len: "length (convertName name) > 0"
    using assms(4) by (cases name) (simp_all add: convertName_Cons)
  have rp: "resNameSnake_of v = convertName name @ ''/:id'' \<and> isIdResource_of v"
    using len by (simp add: resNameSnake_of_def isIdResource_of_def resourcePath_def Let_def
        assms(3) convertName_append_Id [OF assms(4)])
  have "methodPath True (convertName name @ ''/:id'') ''Foo''
          = ''GET /'' @ convertName name @ ''/:id/foo''"
    by (simp add: methodPath_def Let_def name_eval)
  with rp have "routeKey v m = ''GET /'' @ convertName name @ ''/:id/foo''"
    by (simp add: routeKey_def assms(8))
  moreover from assms have "routeKey v m \<in> dom (methodMap router)"
    by (auto simp: NewRouter_dom)
  moreover have "NewRouter [res ''UsersId'' None [''ImageUrl'']]
         = Inr \<lparr>methodMap = [''GET /users/:id/image_url'' \<mapsto> (0, 0)], gapsMap = Map.empty\<rparr>"
    by (simp add: router_eval)
  moreover have "resolvePath \<lparr>methodMap = [''GET /users/:id/image_url'' \<mapsto> (0, 0)], gapsMap = Map.empty\<rparr>
           ''GET'' ''users/5/image_url''
         = \<lparr>path = ''GET /users/:id/image_url'', id = 5,
            segments = [''users'', ''5'', ''image_url''], gaps = None\<rparr>"
    by (simp add: resolve_eval)
  ultimately show ?thesis by simp
qed

theorem id_resource_route_witness:
  "NewRouter [res ''UsersId'' None [''Foo'']]
         = Inr \<lparr>methodMap = [''GET /users/:id/foo'' \<mapsto> (0, 0)], gapsMap = Map.empty\<rparr>
   \<and> res ''UsersId'' None [''Foo''] \<in> set [res ''UsersId'' None [''Foo'']]
   \<and> typeName (res ''UsersId'' None [''Foo'']) = ''Users'' @ ''Id''
   \<and> ''Users'' \<noteq> [] \<and> ascii ''Users''
   \<and> ctxMethod ''Foo'' \<in> set (methods (res ''UsersId'' None [''Foo'']))
   \<and> validateMethod (ctxMethod ''Foo'') = Inr True
   \<and> Name (ctxMethod ''Foo'') = ''Foo''
   \<and> routeKey (res ''UsersId'' None [''Foo'']) (ctxMethod ''Foo'') = ''GET /users/:id/foo''
   \<and> ''GET /'' @ convertName ''Users'' @ ''/:id/foo'' = ''GET /users/:id/foo''"
  using id_resource_route [of "[res ''UsersId'' None [''Foo'']]"
      "\<lparr>methodMap = [''GET /users/:id/foo'' \<mapsto> (0, 0)], gapsMap = Map.empty\<rparr>"
      "res ''UsersId'' None [''Foo'']" "''Users''" "ctxMethod ''Foo''"]
  by (simp add: key_eval ascii_def)

text \<open>
  C3, as stated, fails: the resource \<open>Users\<close> with the gap \<open>profile\<close> and the method
  \<open>Get_Name\<close> registers \<open>GET /users/profile/_name\<close>, and no key
  \<open>GET /users/profile/name\<close>.
\<close>

theorem gap_scenario_key_not_registered:
  "NewRouter [res ''Users'' (Some ''profile'') [''Get_Name'']]
       = Inr \<lparr>methodMap = [''GET /users/profile/_name'' \<mapsto> (0, 0)],
              gapsMap = [''users'' \<mapsto> [''profile'']]\<rparr>
   \<and> [''GET /users/profile/_name'' \<mapsto> (0, 0 :: nat)] ''GET /users/profile/name''
       = (None :: handler option)"
  by (simp add: router_eval)

text \<open>
  C3, amended.  The converted name of \<open>Get_Name\<close> is \<open>get__name\<close>, with a separator
  before the uppercase N beside the underscore of the name, so the resource \<open>Users\<close>
  with the gap \<open>profile\<close> registers the key \<open>GET /users/profile/_name\<close>.  The request
  GET \<open>users/profile/name\<close> resolves to \<open>GET /users/profile/name\<close> with the id 0,
  which is not that key; the request GET \<open>users/profile/_name\<close> resolves to the
  registered key with the id 0.
\<close>

theorem gap_scenario:
  "convertName ''Get_Name'' = ''get__name''
   \<and> NewRouter [res ''Users'' (Some ''profile'') [''Get_Name'']]
       = Inr \<lparr>methodMap = [''GET /users/profile/_name'' \<mapsto> (0, 0)],
              gapsMap = [''users'' \<mapsto> [''profile'']]\<rparr>
   \<and> resolvePath \<lparr>methodMap = [''GET /users/profile/_name'' \<mapsto> (0, 0)],
                  gapsMap = [''users'' \<mapsto> [''profile'']]\<rparr> ''GET'' ''users/profile/name''
       = \<lparr>path = ''GET /users/profile/name'', id = 0,
          segments = [''users'', ''profile'', ''name''], gaps = Some [''profile'']\<rparr>
   \<and> resolvePath \<lparr>methodMap = [''GET /users/profile/_name'' \<mapsto> (0, 0)],
                  gapsMap = [''users'' \<mapsto> [''profile'']]\<rparr> ''GET'' ''users/profile/_name''
       = \<lparr>path = ''GET /users/profile/_name'', id = 0,
          segments = [''users'', ''profile'', ''_name''], gaps = Some [''profile'']\<rparr>"
  by (simp add: router_eval resolve_eval)

section \<open>The key of a request\<close>

lemma resolveIdPath_parts:
  "resolveIdPath path0 segs id0 =
     \<lparr>path = path0 @ ''/:id'' @ optSeg segs 2, id = id0, segments = segs, gaps = None\<rparr>"
  by (simp add: resolveIdPath_def optSeg_def)

lemma resolveGapPath_parts:
  "resolveGapPath r path0 segs id0 =
     (let gs = gapsMap r (hd segs); ni = len_gaps gs + 2 in
      \<lparr>path = path0 @ gapPart gs @ optSeg segs (len_gaps gs + 1)
                @ (if length segs > ni \<and> segs ! ni \<noteq> [] \<and> snd (ParseInt (segs ! ni)) = None
                   then ''/:id'' else []),
       id = (if length segs > ni \<and> segs ! ni \<noteq> [] then fst (ParseInt (segs ! ni)) else id0),
       segments = segs, gaps = gs\<rparr>)"
proof -
  define gs where "gs = gapsMap r (hd segs)"
  have g: "(case gs of None \<Rightarrow> path0 | Some g \<Rightarrow> path0 @ ''/'' @ Join g ''/'') = path0 @ gapPart gs"
    by (simp add: gapPart_def split: option.splits)
  have m: "\<And>p. (if length segs > len_gaps gs + 1 \<and> segs ! (len_gaps gs + 1) \<noteq> []
                  then p @ ''/'' @ segs ! (len_gaps gs + 1) else p)
               = p @ optSeg segs (len_gaps gs + 1)"
    by (simp add: optSeg_def)
  obtain i1 e1 where p1: "ParseInt (segs ! (len_gaps gs + 1 + 1)) = (i1, e1)"
    by force
  then have p2: "ParseInt (segs ! (len_gaps gs + 2)) = (i1, e1)"
    by (simp add: numeral_2_eq_2)
  show ?thesis
    unfolding resolveGapPath_def Let_def gs_def [symmetric] g m p1 p2 prod.case
    by (simp add: numeral_2_eq_2)
qed

lemma resolvePath_branches:
  "resolvePath r v raw =
     (let segs = Split raw (CHR ''/'') in
      if snd (ParseInt (seg1_of segs)) = None
      then resolveIdPath (requestVerb v @ '' /'' @ hd segs) segs (fst (ParseInt (seg1_of segs)))
      else resolveGapPath r (requestVerb v @ '' /'' @ hd segs) segs (fst (ParseInt (seg1_of segs))))"
  by (simp add: resolvePath_def Let_def requestVerb_def seg1_of_def split: prod.splits)

lemma ParseInt_syntax_zero: "snd (ParseInt s) = Some ErrSyntax \<Longrightarrow> fst (ParseInt s) = 0"
  by (auto simp: ParseInt_def Let_def split: prod.splits if_splits)

lemma ParseInt_empty: "ParseInt '''' = (0, Some ErrSyntax)"
  by (simp add: ParseInt_def)

lemma pathSegments_append: "pathSegments (x @ CHR ''/'' # b) = pathSegments x @ Split b (CHR ''/'')"
  using Split_not_Nil [of x "CHR ''/''"] by (simp add: pathSegments_def Split_append)

lemma idSegments_append:
  "idSegments (x @ CHR ''/'' # b) = idSegments x + count_list (Split b (CHR ''/'')) '':id''"
  by (simp add: idSegments_def pathSegments_append)

lemma idSegments_no_slash: "CHR ''/'' \<notin> set x \<Longrightarrow> idSegments x = 0"
  by (simp add: idSegments_def pathSegments_def Split_no_sep)

lemma requestVerb_no_slash: "CHR ''/'' \<notin> set (requestVerb v)"
  by (auto simp: requestVerb_def)

lemma idSegments_optSeg:
  assumes "segs = Split raw (CHR ''/'')" and "'':id'' \<notin> set segs"
  shows "idSegments (x @ optSeg segs i) = idSegments x"
proof (cases "length segs > i \<and> segs ! i \<noteq> ''''")
  case True
  then have mem: "segs ! i \<in> set segs" by simp
  with assms have "CHR ''/'' \<notin> set (segs ! i)" and "segs ! i \<noteq> '':id''"
    using sep_notin_Split by auto
  then have "count_list (Split (segs ! i) (CHR ''/'')) '':id'' = 0"
    by (simp add: Split_no_sep)
  with True show ?thesis by (simp add: optSeg_def idSegments_append)
next
  case False
  then show ?thesis by (auto simp: optSeg_def)
qed

lemma idSegments_gapPart:
  assumes "\<And>g. gs = Some g \<Longrightarrow> '':id'' \<notin> set (Split (Join g ''/'') (CHR ''/''))"
  shows "idSegments (x @ gapPart gs) = idSegments x"
proof (cases gs)
  case None
  then show ?thesis by (simp add: gapPart_def)
next
  case (Some g)
  with assms have "count_list (Split (Join g ''/'') (CHR ''/'')) '':id'' = 0" by simp
  with Some show ?thesis by (simp add: gapPart_def idSegments_append)
qed

lemma idSegments_id: "idSegments (x @ ''/:id'') = idSegments x + 1"
  using idSegments_append [of x "'':id''"] by simp

lemma idSegments_start:
  assumes "segs = Split raw (CHR ''/'')" and "'':id'' \<notin> set segs"
  shows "idSegments (requestVerb v @ '' /'' @ hd segs) = 0"
proof -
  have "hd segs \<in> set segs" using assms(1) Split_not_Nil by simp
  with assms have "CHR ''/'' \<notin> set (hd segs)" and "hd segs \<noteq> '':id''"
    using sep_notin_Split by auto
  then have "count_list (Split (hd segs) (CHR ''/'')) '':id'' = 0"
    by (simp add: Split_no_sep)
  moreover have "idSegments (requestVerb v @ '' '') = 0"
    using requestVerb_no_slash by (simp add: idSegments_no_slash)
  ultimately show ?thesis
    using idSegments_append [of "requestVerb v @ '' ''" "hd segs"] by simp
qed

lemma registerResources_gapsMap:
  "registerResources k vs router = Inr router' \<Longrightarrow> gapsMap router' key = Some gs \<Longrightarrow>
   gapsMap router key = Some gs
   \<or> (\<exists>v \<in> set vs. \<exists>g. Gap v = Some g \<and> gs = Split g (CHR ''/''))"
proof (induction vs arbitrary: k router)
  case Nil
  then show ?case by simp
next
  case (Cons v vs)
  from Cons.prems(1) have ptr: "isPointer v" by (auto split: if_splits)
  define gm where "gm = (if isIdResource_of v then gapsMap router
      else (case Gap v of Some gap \<Rightarrow> (gapsMap router)(convertName (typeName v) \<mapsto> Split gap (CHR ''/''))
            | None \<Rightarrow> gapsMap router))"
  from Cons.prems(1) ptr obtain mm where
    rest: "registerResources (k + 1) vs \<lparr>methodMap = mm, gapsMap = gm\<rparr> = Inr router'"
    by (auto simp: resourcePath_parts gm_def split: sum.splits)
  from Cons.IH [OF rest Cons.prems(2)]
  have "gm key = Some gs \<or> (\<exists>v \<in> set vs. \<exists>g. Gap v = Some g \<and> gs = Split g (CHR ''/''))"
    by simp
  then show ?case
  proof
    assume "gm key = Some gs"
    then have "gapsMap router key = Some gs \<or> (\<exists>g. Gap v = Some g \<and> gs = Split g (CHR ''/''))"
      by (auto simp: gm_def split: if_splits option.splits)
    then show ?thesis by auto
  next
    assume "\<exists>v \<in> set vs. \<exists>g. Gap v = Some g \<and> gs = Split g (CHR ''/'')"
    then show ?thesis by auto
  qed
qed

lemma NewRouter_gapsMap:
  assumes "NewRouter resources = Inr router" and "gapsMap router key = Some gs"
  shows "\<exists>v \<in> set resources. \<exists>g. Gap v = Some g \<and> gs = Split g (CHR ''/'')"
  using registerResources_gapsMap
      [of 0 resources "\<lparr>methodMap = Map.empty, gapsMap = Map.empty\<rparr>" router key gs] assms
  unfolding NewRouter_def by auto

text \<open>
  An out-of-range number in the second segment: the parse fails, the key has no id
  segment, and the id returned is the bound of int64 that \<open>ParseInt\<close> gives beside
  its range error.
\<close>

lemma resolvePath_range_error_keeps_id:
  "resolvePath \<lparr>methodMap = Map.empty, gapsMap = Map.empty\<rparr> ''GET'' ''users/99999999999999999999''
     = \<lparr>path = ''GET /users/99999999999999999999'', id = 9223372036854775807,
        segments = [''users'', ''99999999999999999999''], gaps = None\<rparr>"
  by (simp add: resolve_eval)

text \<open>
  C10, as stated, fails on a raw path with a segment that is the text \<open>:id\<close>: the
  request GET \<open>users/5/:id\<close> resolves with the id 5 to the key \<open>GET /users/:id/:id\<close>,
  which has two \<open>:id\<close> segments.
\<close>

theorem literal_id_segment_twice:
  "NewRouter [] = Inr \<lparr>methodMap = Map.empty, gapsMap = Map.empty\<rparr>
   \<and> resolvePath \<lparr>methodMap = Map.empty, gapsMap = Map.empty\<rparr> ''GET'' ''users/5/:id''
       = \<lparr>path = ''GET /users/:id/:id'', id = 5, segments = [''users'', ''5'', '':id''],
          gaps = None\<rparr>
   \<and> idSegments ''GET /users/:id/:id'' = 2"
  by (simp add: NewRouter_def resolve_eval idSegments_def pathSegments_def)

text \<open>
  C10, amended.  For every router that \<open>NewRouter\<close> builds from resources whose gaps
  have no segment \<open>:id\<close>, every method string and every raw path that has no segment
  \<open>:id\<close> and no segment that is a number out of the range of int64: if \<open>resolvePath\<close>
  returns a nonzero id then the key has a segment \<open>:id\<close>, and the key has at most one
  segment \<open>:id\<close>.
\<close>

theorem resolvePath_id_segments:
  assumes router: "NewRouter resources = Inr router"
    and gaps: "list_all (\<lambda>v. case Gap v of None \<Rightarrow> True
                              | Some g \<Rightarrow> '':id'' \<notin> set (Split g (CHR ''/''))) resources"
    and noid: "'':id'' \<notin> set (Split rawPath (CHR ''/''))"
    and range: "list_all (\<lambda>s. snd (ParseInt s) \<noteq> Some ErrRange) (Split rawPath (CHR ''/''))"
  shows "(id (resolvePath router httpVerb rawPath) \<noteq> 0
            \<longrightarrow> '':id'' \<in> set (pathSegments (path (resolvePath router httpVerb rawPath))))
     \<and> idSegments (path (resolvePath router httpVerb rawPath)) \<le> 1"
proof -
  define segs where "segs = Split rawPath (CHR ''/'')"
  define gs where "gs = gapsMap router (hd segs)"
  define ni where "ni = len_gaps gs + 2"
  define p0 where "p0 = requestVerb httpVerb @ '' /'' @ hd segs"
  have segs: "segs = Split rawPath (CHR ''/'')" by (simp add: segs_def)
  have noid': "'':id'' \<notin> set segs" using noid by (simp add: segs_def)
  have c0: "idSegments p0 = 0"
    unfolding p0_def using idSegments_start [OF segs noid'] .
  have in_count: "\<And>k. (idSegments k \<ge> 1) = ('':id'' \<in> set (pathSegments k))"
  proof -
    fix k show "(idSegments k \<ge> 1) = ('':id'' \<in> set (pathSegments k))"
      using count_list_0_iff [of "pathSegments k" "'':id''"] by (auto simp: idSegments_def)
  qed
  have syn0: "\<And>s. s \<in> set segs \<or> s = [] \<Longrightarrow> snd (ParseInt s) \<noteq> None \<Longrightarrow> fst (ParseInt s) = 0"
  proof -
    fix s assume s: "s \<in> set segs \<or> s = []" and e: "snd (ParseInt s) \<noteq> None"
    from s range have "snd (ParseInt s) \<noteq> Some ErrRange"
      by (auto simp: segs_def list_all_iff ParseInt_empty)
    with e have "snd (ParseInt s) = Some ErrSyntax"
      by (cases "snd (ParseInt s)") (auto intro: NumError.exhaust)
    then show "fst (ParseInt s) = 0" by (rule ParseInt_syntax_zero)
  qed
  have seg1: "seg1_of segs \<in> set segs \<or> seg1_of segs = []"
    by (simp add: seg1_of_def)
  show ?thesis
  proof (cases "snd (ParseInt (seg1_of segs)) = None")
    case True
    then have r: "resolvePath router httpVerb rawPath
        = \<lparr>path = (p0 @ ''/:id'') @ optSeg segs 2, id = fst (ParseInt (seg1_of segs)),
           segments = segs, gaps = None\<rparr>"
      unfolding resolvePath_branches Let_def segs_def [symmetric]
      by (simp add: resolveIdPath_parts p0_def)
    have "idSegments ((p0 @ ''/:id'') @ optSeg segs 2) = 1"
      by (simp only: idSegments_optSeg [OF segs noid'] idSegments_id c0)
    with r show ?thesis by (simp add: in_count [symmetric])
  next
    case False
    define idp where "idp = (if length segs > ni \<and> segs ! ni \<noteq> [] \<and> snd (ParseInt (segs ! ni)) = None
                   then ''/:id'' else [])"
    from False obtain e where e: "snd (ParseInt (seg1_of segs)) = Some e" by auto
    have r: "resolvePath router httpVerb rawPath
        = \<lparr>path = ((p0 @ gapPart gs) @ optSeg segs (len_gaps gs + 1)) @ idp,
           id = (if length segs > ni \<and> segs ! ni \<noteq> [] then fst (ParseInt (segs ! ni))
                 else fst (ParseInt (seg1_of segs))),
           segments = segs, gaps = gs\<rparr>"
      unfolding resolvePath_branches Let_def segs_def [symmetric]
      by (simp add: e resolveGapPath_parts p0_def gs_def ni_def idp_def Let_def)
    have gfree: "\<And>g. gs = Some g \<Longrightarrow> '':id'' \<notin> set (Split (Join g ''/'') (CHR ''/''))"
    proof -
      fix g assume "gs = Some g"
      then obtain v gap where v: "v \<in> set resources" "Gap v = Some gap" "g = Split gap (CHR ''/'')"
        using NewRouter_gapsMap [OF router] unfolding gs_def by blast
      with gaps have "'':id'' \<notin> set (Split gap (CHR ''/''))"
        by (auto simp: list_all_iff)
      with v show "'':id'' \<notin> set (Split (Join g ''/'') (CHR ''/''))"
        using Join_Split [of gap "CHR ''/''"] by simp
    qed
    have c2: "idSegments ((p0 @ gapPart gs) @ optSeg segs (len_gaps gs + 1)) = 0"
      by (simp only: idSegments_optSeg [OF segs noid'] idSegments_gapPart [OF gfree] c0)
    show ?thesis
    proof (cases "length segs > ni \<and> segs ! ni \<noteq> []")
      case nxt: True
      from nxt have mem: "segs ! ni \<in> set segs" by simp
      show ?thesis
      proof (cases "snd (ParseInt (segs ! ni)) = None")
        case True
        with nxt have "idp = ''/:id''" by (simp add: idp_def)
        then have "idSegments (path (resolvePath router httpVerb rawPath)) = 1"
          using r c2 idSegments_id [of "(p0 @ gapPart gs) @ optSeg segs (len_gaps gs + 1)"]
          by simp
        then show ?thesis by (simp add: in_count [symmetric])
      next
        case False
        with nxt have "idp = []" by (simp add: idp_def)
        moreover from False mem have "fst (ParseInt (segs ! ni)) = 0" using syn0 by blast
        ultimately show ?thesis using r c2 nxt by simp
      qed
    next
      case nonext: False
      then have "idp = []" by (auto simp: idp_def)
      moreover from False seg1 have "fst (ParseInt (seg1_of segs)) = 0" using syn0 by blast
      ultimately show ?thesis using r c2 nonext by simp
    qed
  qed
qed

theorem resolvePath_id_segments_witness:
  "NewRouter [res ''Users'' (Some ''profile'') [''Name'']]
     = Inr \<lparr>methodMap = [''GET /users/profile/name'' \<mapsto> (0, 0)],
            gapsMap = [''users'' \<mapsto> [''profile'']]\<rparr>
   \<and> list_all (\<lambda>v. case Gap v of None \<Rightarrow> True
                     | Some g \<Rightarrow> '':id'' \<notin> set (Split g (CHR ''/'')))
        [res ''Users'' (Some ''profile'') [''Name'']]
   \<and> '':id'' \<notin> set (Split ''users/profile/name/7'' (CHR ''/''))
   \<and> list_all (\<lambda>s. snd (ParseInt s) \<noteq> Some ErrRange) (Split ''users/profile/name/7'' (CHR ''/''))
   \<and> resolvePath \<lparr>methodMap = [''GET /users/profile/name'' \<mapsto> (0, 0)],
                  gapsMap = [''users'' \<mapsto> [''profile'']]\<rparr> ''GET'' ''users/profile/name/7''
       = \<lparr>path = ''GET /users/profile/name/:id'', id = 7,
          segments = [''users'', ''profile'', ''name'', ''7''], gaps = Some [''profile'']\<rparr>
   \<and> '':id'' \<in> set (pathSegments ''GET /users/profile/name/:id'')
   \<and> idSegments ''GET /users/profile/name/:id'' \<le> 1"
  using resolvePath_id_segments [of "[res ''Users'' (Some ''profile'') [''Name'']]"
      "\<lparr>methodMap = [''GET /users/profile/name'' \<mapsto> (0, 0)],
        gapsMap = [''users'' \<mapsto> [''profile'']]\<rparr>" "''users/profile/name/7''" "''GET''"]
  by (simp add: router_eval resolve_eval idSegments_def pathSegments_def)

section \<open>Names of letters\<close>

lemma Split_Cons_other:
  "x \<noteq> c \<Longrightarrow> \<exists>w ws. Split s c = w # ws \<and> Split (x # s) c = (x # w) # ws"
  using Split_not_Nil [of s c] by (cases "Split s c") auto

lemma Split_Cons_sep: "x \<noteq> c \<Longrightarrow> Split (x # c # t) c = [x] # Split t c"
  by simp

lemma lowerWords_converted:
  assumes "CHR ''a'' \<le> x \<and> x \<le> CHR ''z''" and "letters cs"
  shows "list_all lowerWord
     (Split (x # concat (map (\<lambda>v. if CHR ''A'' \<le> v \<and> v \<le> CHR ''Z''
                                       then [WordSeparator, toLower v] else [toLower v]) cs))
        WordSeparator)"
  using assms
proof (induction cs arbitrary: x)
  case Nil
  then have "x \<noteq> WordSeparator" by (auto simp: WordSeparator_def less_eq_char_def)
  with Nil show ?case by (simp add: lowerWord_def)
next
  case (Cons v cs)
  let ?f = "\<lambda>v. if CHR ''A'' \<le> v \<and> v \<le> CHR ''Z'' then [WordSeparator, toLower v] else [toLower v]"
  from Cons.prems have x: "x \<noteq> WordSeparator" by (auto simp: WordSeparator_def less_eq_char_def)
  from Cons.prems have lv: "CHR ''a'' \<le> toLower v \<and> toLower v \<le> CHR ''z''" and lcs: "letters cs"
    by (simp_all add: letters_def toLower_letter)
  from Cons.IH [OF lv lcs]
  have IH: "list_all lowerWord (Split (toLower v # concat (map ?f cs)) WordSeparator)" .
  have xw: "lowerWord [x]" using Cons.prems(1) by (simp add: lowerWord_def)
  show ?case
  proof (cases "CHR ''A'' \<le> v \<and> v \<le> CHR ''Z''")
    case True
    then have c: "concat (map ?f (v # cs)) = WordSeparator # toLower v # concat (map ?f cs)"
      by simp
    have "Split (x # WordSeparator # toLower v # concat (map ?f cs)) WordSeparator
        = [x] # Split (toLower v # concat (map ?f cs)) WordSeparator"
      using x by (rule Split_Cons_sep)
    with IH xw show ?thesis
      unfolding c by (simp del: Split.simps)
  next
    case False
    then have c: "concat (map ?f (v # cs)) = toLower v # concat (map ?f cs)"
      by simp
    obtain w ws where s1: "Split (toLower v # concat (map ?f cs)) WordSeparator = w # ws"
      and s2: "Split (x # toLower v # concat (map ?f cs)) WordSeparator = (x # w) # ws"
      using Split_Cons_other [OF x] by blast
    from IH have "lowerWord w" and "list_all lowerWord ws"
      unfolding s1 by simp_all
    moreover from this Cons.prems(1) have "lowerWord (x # w)"
      by (simp add: lowerWord_def)
    ultimately show ?thesis
      unfolding c s2 by simp
  qed
qed

lemma lowerWords_convertName:
  assumes "name \<noteq> []" and "letters name"
  shows "list_all lowerWord (Split (convertName name) WordSeparator)"
proof -
  from assms obtain c cs where n: "name = c # cs" by (cases name) auto
  with assms have "CHR ''a'' \<le> toLower c \<and> toLower c \<le> CHR ''z''" and "letters cs"
    by (simp_all add: letters_def toLower_letter)
  then show ?thesis
    unfolding n convertName_Cons by (rule lowerWords_converted)
qed

text \<open>A plain segment: not empty, without a slash, and starting with a lowercase letter.\<close>

lemma lowerWord_plain:
  "lowerWord w \<Longrightarrow> w \<noteq> [] \<and> CHR ''/'' \<notin> set w \<and> CHR ''a'' \<le> hd w \<and> hd w \<le> CHR ''z''"
  by (cases w) (auto simp: lowerWord_def list_all_iff less_eq_char_def)

lemma Join_lowerWords_plain:
  assumes "ws \<noteq> []" and "list_all lowerWord ws"
  shows "Join ws [WordSeparator] \<noteq> [] \<and> CHR ''/'' \<notin> set (Join ws [WordSeparator])
     \<and> CHR ''a'' \<le> hd (Join ws [WordSeparator]) \<and> hd (Join ws [WordSeparator]) \<le> CHR ''z''"
  using assms
proof (induction ws)
  case Nil
  then show ?case by simp
next
  case (Cons w ws)
  then have w: "w \<noteq> [] \<and> CHR ''/'' \<notin> set w \<and> CHR ''a'' \<le> hd w \<and> hd w \<le> CHR ''z''"
    using lowerWord_plain by simp
  show ?case
  proof (cases "ws = []")
    case True
    with w show ?thesis by simp
  next
    case False
    with Cons have "CHR ''/'' \<notin> set (Join ws [WordSeparator])" by simp
    with w False show ?thesis by (simp add: Join_Cons WordSeparator_def)
  qed
qed

lemma ParseInt_plain:
  assumes "s \<noteq> []" and "CHR ''a'' \<le> hd s"
  shows "snd (ParseInt s) = Some ErrSyntax"
proof -
  from assms obtain c cs where s: "s = c # cs" by (cases s) auto
  with assms have "c \<noteq> CHR ''+''" "c \<noteq> CHR ''-''" "\<not> (CHR ''0'' \<le> c \<and> c \<le> CHR ''9'')"
    by (auto simp: less_eq_char_def)
  then show ?thesis
    by (simp add: s ParseInt_def ParseUint_def)
qed

lemma ParseInt_zero: "ParseInt ''0'' = (0, None)"
  by (simp add: parse_eval)

section \<open>Requests for registered keys\<close>

lemma resolvePath_of_segments:
  assumes "segs \<noteq> []" and "\<forall>s \<in> set segs. CHR ''/'' \<notin> set s"
  shows "resolvePath r v (Join segs ''/'') =
     (if snd (ParseInt (seg1_of segs)) = None
      then resolveIdPath (requestVerb v @ '' /'' @ hd segs) segs (fst (ParseInt (seg1_of segs)))
      else resolveGapPath r (requestVerb v @ '' /'' @ hd segs) segs (fst (ParseInt (seg1_of segs))))"
  using Split_Join [OF assms] by (simp add: resolvePath_branches)

lemma requestVerb_id: "V \<in> {''GET'', ''POST'', ''PUT''} \<Longrightarrow> requestVerb V = V"
  by (auto simp: requestVerb_def)

lemma resolve_id_request:
  assumes base: "CHR ''/'' \<notin> set base" and V: "V \<in> {''GET'', ''POST'', ''PUT''}"
    and t: "t = [] \<or> (\<exists>W. t = [W] \<and> W \<noteq> [] \<and> CHR ''/'' \<notin> set W)"
  shows "path (resolvePath r V (Join (base # ''0'' # t) ''/''))
     = V @ '' /'' @ base @ ''/:id'' @ (case t of [] \<Rightarrow> [] | W # _ \<Rightarrow> ''/'' @ W)"
proof -
  have "\<forall>s \<in> set (base # ''0'' # t). CHR ''/'' \<notin> set s"
    using base t by auto
  then have "resolvePath r V (Join (base # ''0'' # t) ''/'')
      = resolveIdPath (V @ '' /'' @ base) (base # ''0'' # t) 0"
    by (subst resolvePath_of_segments) (simp_all add: seg1_of_def ParseInt_zero requestVerb_id [OF V])
  then show ?thesis
    using t by (auto simp: resolveIdPath_parts optSeg_def)
qed

lemma resolve_gap_request:
  assumes snake: "CHR ''/'' \<notin> set snake" and V: "V \<in> {''GET'', ''POST'', ''PUT''}"
    and W: "W \<noteq> []" "CHR ''/'' \<notin> set W" "snd (ParseInt W) \<noteq> None"
    and t: "t = [] \<or> t = [W] \<or> t = [W, ''0'']"
    and n: "n = len_gaps (gapsMap r snake)"
  shows "path (resolvePath r V (Join (snake # replicate n [] @ t) ''/''))
     = V @ '' /'' @ snake @ gapPart (gapsMap r snake)
         @ (if t = [] then [] else ''/'' @ W) @ (if length t = 2 then ''/:id'' else [])"
proof -
  define segs where "segs = snake # replicate n [] @ t"
  have free: "\<forall>s \<in> set segs. CHR ''/'' \<notin> set s"
    using snake W(2) t by (auto simp: segs_def)
  have len: "length segs = Suc n + length t" by (simp add: segs_def)
  have at1: "segs ! Suc n = W" if "t \<noteq> []"
    using that t by (auto simp: segs_def nth_append)
  have at2: "segs ! Suc (Suc n) = ''0''" if "length t = 2"
    using that t by (auto simp: segs_def nth_append)
  have s1: "snd (ParseInt (seg1_of segs)) \<noteq> None"
  proof (cases n)
    case 0
    then show ?thesis
      using t W(3) by (auto simp: seg1_of_def segs_def ParseInt_empty)
  next
    case (Suc k)
    then have "seg1_of segs = []" by (simp add: seg1_of_def segs_def)
    then show ?thesis by (simp add: ParseInt_empty)
  qed
  have "resolvePath r V (Join segs ''/'')
      = resolveGapPath r (V @ '' /'' @ snake) segs (fst (ParseInt (seg1_of segs)))"
  proof -
    from s1 obtain e where e: "snd (ParseInt (seg1_of segs)) = Some e" by auto
    have "segs \<noteq> []" by (simp add: segs_def)
    from resolvePath_of_segments [OF this free, of r V]
    have "resolvePath r V (Join segs ''/'')
      = resolveGapPath r (requestVerb V @ '' /'' @ hd segs) segs (fst (ParseInt (seg1_of segs)))"
      by (simp add: e)
    moreover have "hd segs = snake" by (simp add: segs_def)
    ultimately show ?thesis by (simp add: requestVerb_id [OF V])
  qed
  moreover have "hd segs = snake" by (simp add: segs_def)
  moreover have "optSeg segs (Suc n) = (if t = [] then [] else ''/'' @ W)"
    using at1 W(1) len by (auto simp: optSeg_def)
  moreover have "(Suc (Suc n) < length segs \<and> segs ! Suc (Suc n) \<noteq> []
         \<and> snd (ParseInt (segs ! Suc (Suc n))) = None) = (length t = 2)"
    using t len at2 by (auto simp: ParseInt_zero)
  ultimately show ?thesis
    unfolding segs_def [symmetric]
    by (simp add: resolveGapPath_parts Let_def n [symmetric])
qed

lemma resource_parts:
  "isIdResource_of v =
     (length (convertName (typeName v)) > 3
      \<and> drop (length (convertName (typeName v)) - 3) (convertName (typeName v)) = ''_id'')"
  "resNameSnake_of v =
     (if isIdResource_of v
      then take (length (convertName (typeName v)) - 3) (convertName (typeName v)) @ ''/:id''
      else (case Gap v of Some gap \<Rightarrow> convertName (typeName v) @ ''/'' @ gap
            | None \<Rightarrow> convertName (typeName v)))"
  by (simp_all add: isIdResource_of_def resNameSnake_of_def resourcePath_def Let_def
      split: option.splits)

lemma convertName_plain:
  assumes "name \<noteq> []" and "letters name"
  shows "convertName name \<noteq> [] \<and> CHR ''/'' \<notin> set (convertName name)"
proof -
  have "Join (Split (convertName name) WordSeparator) [WordSeparator] = convertName name"
    by (rule Join_Split)
  then show ?thesis
    using Join_lowerWords_plain [OF Split_not_Nil lowerWords_convertName [OF assms]]
    by simp
qed

lemma ToUpper_verbs:
  "ToUpper ''post'' = ''POST''" "ToUpper ''get'' = ''GET''" "ToUpper ''put'' = ''PUT''"
  "ToUpper ''delete'' = ''DELETE''"
  by (simp_all add: name_eval)

lemma Split_optSeg:
  assumes "segs = Split raw (CHR ''/'')"
  shows "Split (x @ optSeg segs i) (CHR ''/'')
     = Split x (CHR ''/'') @ (if length segs > i \<and> segs ! i \<noteq> [] then [segs ! i] else [])"
proof (cases "length segs > i \<and> segs ! i \<noteq> []")
  case True
  then have "segs ! i \<in> set segs" by simp
  with assms have "CHR ''/'' \<notin> set (segs ! i)" using sep_notin_Split by auto
  with True show ?thesis by (simp add: optSeg_def Split_append Split_no_sep)
next
  case False
  then show ?thesis by (auto simp: optSeg_def)
qed

lemma Split_gapPart:
  "Split (x @ gapPart gs) (CHR ''/'')
     = Split x (CHR ''/'') @ (case gs of None \<Rightarrow> [] | Some g \<Rightarrow> Split (Join g ''/'') (CHR ''/''))"
  by (simp add: gapPart_def Split_append split: option.splits)

lemma Split_start:
  assumes "segs = Split raw (CHR ''/'')"
  shows "Split (requestVerb v @ '' /'' @ hd segs) (CHR ''/'') = [requestVerb v @ '' '', hd segs]"
proof -
  have "hd segs \<in> set segs" using assms Split_not_Nil by simp
  with assms have "CHR ''/'' \<notin> set (hd segs)" using sep_notin_Split by auto
  moreover have "CHR ''/'' \<notin> set (requestVerb v @ '' '')"
    using requestVerb_no_slash by simp
  ultimately show ?thesis
    using Split_append [of "requestVerb v @ '' ''" "CHR ''/''" "hd segs"]
    by (simp add: Split_no_sep del: Split.simps)
qed

lemma resolved_key_segments:
  "Split (path (resolvePath r v raw)) (CHR ''/'') =
     (let segs = Split raw (CHR ''/''); gs = gapsMap r (hd segs); ni = len_gaps gs + 2 in
      [requestVerb v @ '' '', hd segs]
      @ (if snd (ParseInt (seg1_of segs)) = None
         then '':id'' # (if length segs > 2 \<and> segs ! 2 \<noteq> [] then [segs ! 2] else [])
         else (case gs of None \<Rightarrow> [] | Some g \<Rightarrow> Split (Join g ''/'') (CHR ''/''))
              @ (if length segs > len_gaps gs + 1 \<and> segs ! (len_gaps gs + 1) \<noteq> []
                 then [segs ! (len_gaps gs + 1)] else [])
              @ (if length segs > ni \<and> segs ! ni \<noteq> [] \<and> snd (ParseInt (segs ! ni)) = None
                 then ['':id''] else [])))"
proof -
  define segs where "segs = Split raw (CHR ''/'')"
  define gs where "gs = gapsMap r (hd segs)"
  define p0 where "p0 = requestVerb v @ '' /'' @ hd segs"
  have segs: "segs = Split raw (CHR ''/'')" by (simp add: segs_def)
  have s0: "Split p0 (CHR ''/'') = [requestVerb v @ '' '', hd segs]"
    unfolding p0_def by (rule Split_start [OF segs])
  have sid: "\<And>x. Split (x @ ''/:id'') (CHR ''/'') = Split x (CHR ''/'') @ ['':id'']"
    using Split_append [of _ "CHR ''/''" "'':id''"] by simp
  show ?thesis
  proof (cases "snd (ParseInt (seg1_of segs)) = None")
    case True
    then have A: "path (resolvePath r v raw) = (p0 @ ''/:id'') @ optSeg segs 2"
      unfolding resolvePath_branches Let_def segs_def [symmetric]
      by (simp add: resolveIdPath_parts p0_def)
    have B: "Split ((p0 @ ''/:id'') @ optSeg segs 2) (CHR ''/'')
        = ([requestVerb v @ '' '', hd segs] @ ['':id''])
          @ (if length segs > 2 \<and> segs ! 2 \<noteq> [] then [segs ! 2] else [])"
      by (simp only: Split_optSeg [OF segs] sid s0)
    show ?thesis
      unfolding A B Let_def segs_def [symmetric] using True by simp
  next
    case False
    then obtain e where e: "snd (ParseInt (seg1_of segs)) = Some e" by auto
    define ni where "ni = len_gaps gs + 2"
    define c where "c = (length segs > ni \<and> segs ! ni \<noteq> [] \<and> snd (ParseInt (segs ! ni)) = None)"
    have A: "path (resolvePath r v raw)
        = ((p0 @ gapPart gs) @ optSeg segs (len_gaps gs + 1)) @ (if c then ''/:id'' else [])"
      unfolding resolvePath_branches Let_def segs_def [symmetric]
      by (simp add: e resolveGapPath_parts p0_def gs_def ni_def c_def Let_def)
    have B: "Split (((p0 @ gapPart gs) @ optSeg segs (len_gaps gs + 1)) @ (if c then ''/:id'' else []))
          (CHR ''/'')
        = (([requestVerb v @ '' '', hd segs]
            @ (case gs of None \<Rightarrow> [] | Some g \<Rightarrow> Split (Join g ''/'') (CHR ''/'')))
           @ (if length segs > len_gaps gs + 1 \<and> segs ! (len_gaps gs + 1) \<noteq> []
              then [segs ! (len_gaps gs + 1)] else []))
          @ (if c then ['':id''] else [])"
      by (cases c) (simp_all only: if_True if_False append_Nil2 sid
          Split_optSeg [OF segs] Split_gapPart s0)
    show ?thesis
      unfolding A B Let_def segs_def [symmetric] gs_def [symmetric] ni_def [symmetric]
      using e by (simp add: c_def)
  qed
qed

lemma resolved_key_verb:
  "hd (Split (path (resolvePath r v raw)) (CHR ''/''))
     = (if v \<in> {''POST'', ''DETETE'', ''PUT''} then v else ''GET'') @ '' ''"
  unfolding resolved_key_segments Let_def by (simp add: requestVerb_def)

text \<open>
  No request resolves to a key with the verb DELETE: the verb of a resolved key is
  GET, POST, PUT or the text \<open>DETETE\<close>.
\<close>

lemma no_request_for_DELETE:
  "take 8 (path (resolvePath r v raw)) \<noteq> ''DELETE /''"
proof
  assume eq: "take 8 (path (resolvePath r v raw)) = ''DELETE /''"
  have "path (resolvePath r v raw) = ''DELETE '' @ CHR ''/'' # drop 8 (path (resolvePath r v raw))"
    using append_take_drop_id [of 8 "path (resolvePath r v raw)"] unfolding eq by simp
  then have "Split (path (resolvePath r v raw)) (CHR ''/'')
      = Split ''DELETE '' (CHR ''/'') @ Split (drop 8 (path (resolvePath r v raw))) (CHR ''/'')"
    using Split_append [of "''DELETE ''" "CHR ''/''" "drop 8 (path (resolvePath r v raw))"]
    by simp
  then have "hd (Split (path (resolvePath r v raw)) (CHR ''/'')) = ''DELETE ''"
    by simp
  then have "requestVerb v = ''DELETE''"
    unfolding resolved_key_segments Let_def by simp
  then show False
    by (auto simp: requestVerb_def split: if_splits)
qed

text \<open>
  C1, as stated, fails on a method segment that is a number: the method \<open>Get_5\<close> of
  the resource \<open>Users\<close> registers the key \<open>GET /users/5\<close>, and no request resolves to
  it, since a second segment \<open>5\<close> is read as an id.
\<close>

theorem numeric_method_segment_has_no_request:
  "NewRouter [res ''Users'' None [''Get_5'']]
     = Inr \<lparr>methodMap = [''GET /users/5'' \<mapsto> (0, 0)], gapsMap = Map.empty\<rparr>
   \<and> \<not> (\<exists>httpVerb rawPath.
          path (resolvePath \<lparr>methodMap = [''GET /users/5'' \<mapsto> (0, 0)], gapsMap = Map.empty\<rparr>
                  httpVerb rawPath) = ''GET /users/5'')"
proof -
  let ?R = "\<lparr>methodMap = [''GET /users/5'' \<mapsto> (0 :: nat, 0 :: nat)], gapsMap = Map.empty\<rparr>"
  have no: "path (resolvePath ?R v raw) \<noteq> ''GET /users/5''" for v raw
  proof
    assume eq: "path (resolvePath ?R v raw) = ''GET /users/5''"
    define segs where "segs = Split raw (CHR ''/'')"
    have "Split (path (resolvePath ?R v raw)) (CHR ''/'') = [''GET '', ''users'', ''5'']"
      unfolding eq by simp
    then have l: "[''GET '', ''users'', ''5''] =
      [requestVerb v @ '' '', hd segs]
      @ (if snd (ParseInt (seg1_of segs)) = None
         then '':id'' # (if length segs > 2 \<and> segs ! 2 \<noteq> [] then [segs ! 2] else [])
         else (case gapsMap ?R (hd segs) of None \<Rightarrow> []
               | Some g \<Rightarrow> Split (Join g ''/'') (CHR ''/''))
              @ (if length segs > len_gaps (gapsMap ?R (hd segs)) + 1
                    \<and> segs ! (len_gaps (gapsMap ?R (hd segs)) + 1) \<noteq> []
                 then [segs ! (len_gaps (gapsMap ?R (hd segs)) + 1)] else [])
              @ (if length segs > len_gaps (gapsMap ?R (hd segs)) + 2
                    \<and> segs ! (len_gaps (gapsMap ?R (hd segs)) + 2) \<noteq> []
                    \<and> snd (ParseInt (segs ! (len_gaps (gapsMap ?R (hd segs)) + 2))) = None
                 then ['':id''] else []))"
      unfolding resolved_key_segments Let_def segs_def [symmetric] by simp
    have g: "gapsMap ?R (hd segs) = None" by simp
    show False
    proof (cases "snd (ParseInt (seg1_of segs)) = None")
      case True
      with l show False by simp
    next
      case False
      then obtain e where e: "snd (ParseInt (seg1_of segs)) = Some e" by auto
      from l have "length segs > 1 \<and> segs ! 1 = ''5''"
        unfolding g e by (simp add: len_gaps_def split: if_splits)
      then have "seg1_of segs = ''5''" by (simp add: seg1_of_def)
      then have "snd (ParseInt (seg1_of segs)) = None" by (simp add: parse_eval)
      with False show False by simp
    qed
  qed
  have "NewRouter [res ''Users'' None [''Get_5'']] = Inr ?R"
    by (simp add: router_eval)
  with no show ?thesis by blast
qed

text \<open>
  C1, amended.  For every router that \<open>NewRouter\<close> builds from resources whose type
  names and whose names of methods of the required shape are made of letters, and
  whose entry in the gap table is their own gap, and for every key of the method map
  whose verb is not DELETE, there is a request, a method string and a raw path, for
  which \<open>resolvePath\<close> returns that key.
\<close>

theorem registered_key_has_request:
  assumes router: "NewRouter resources = Inr router"
    and names: "list_all wellNamed resources"
    and own: "list_all (ownGap router) resources"
    and key: "key \<in> dom (methodMap router)"
    and verb: "take 8 key \<noteq> ''DELETE /''"
  shows "\<exists>httpVerb rawPath. path (resolvePath router httpVerb rawPath) = key"
proof -
  from key obtain v m where v: "v \<in> set resources" and m: "m \<in> set (methods v)"
    and valid: "validateMethod m = Inr True" and k: "key = routeKey v m"
    unfolding NewRouter_dom [OF router] by blast
  from names v have tn: "typeName v \<noteq> []" "letters (typeName v)"
    by (auto simp: wellNamed_def list_all_iff)
  from names v m valid have mn: "letters (Name m)"
    by (auto simp: wellNamed_def list_all_iff)
  from valid have mne: "Name m \<noteq> []"
    by (auto simp: validateMethod_def split: list.splits)
  define snake where "snake = convertName (typeName v)"
  define ws where "ws = Split (convertName (Name m)) WordSeparator"
  define isId where "isId = isIdResource_of v"
  define rns where "rns = resNameSnake_of v"
  define idm where "idm = spec_isIdMethod isId ws"
  define pw where "pw = (if idm then butlast (spec_pathWords ws) else spec_pathWords ws)"
  define V where "V = spec_verb ws"
  define W where "W = Join pw [WordSeparator]"
  have lw: "list_all lowerWord ws"
    using lowerWords_convertName [OF mne mn] by (simp add: ws_def)
  have wsne: "ws \<noteq> []" by (simp add: ws_def Split_not_Nil)
  have "set (spec_pathWords ws) \<subseteq> set ws"
    using wsne by (auto simp: spec_pathWords_def dest: list.set_sel(2))
  then have "set pw \<subseteq> set ws"
    by (auto simp: pw_def dest: in_set_butlastD)
  with lw have lpw: "list_all lowerWord pw" by (auto simp: list_all_iff)
  have Wp: "W \<noteq> [] \<and> CHR ''/'' \<notin> set W \<and> snd (ParseInt W) \<noteq> None" if "pw \<noteq> []"
    using Join_lowerWords_plain [OF that lpw] ParseInt_plain [of W] by (simp add: W_def)
  have idm_pw: "pw \<noteq> []" if idm
  proof -
    from that have "length (spec_pathWords ws) \<ge> 2" by (simp add: idm_def spec_isIdMethod_def)
    then show ?thesis using that by (cases "spec_pathWords ws") (auto simp: pw_def split: if_splits)
  qed
  have snake: "snake \<noteq> [] \<and> CHR ''/'' \<notin> set snake"
    unfolding snake_def using convertName_plain [OF tn] .
  have rne: "rns \<noteq> []"
    using snake by (auto simp: rns_def resource_parts snake_def split: option.splits)
  have k3: "key = V @ '' /'' @ rns @ (if pw = [] then [] else ''/'' @ W) @ (if idm then ''/:id'' else [])"
    using rne
    by (simp add: k routeKey_def methodPath_spec spec_routeKey_def spec_methodPath_def Let_def
        ws_def [symmetric] isId_def [symmetric] rns_def [symmetric] idm_def [symmetric]
        pw_def [symmetric] V_def [symmetric] W_def [symmetric])
  have Vs: "V \<in> {''GET'', ''POST'', ''PUT''}"
  proof (cases "hd ws = ''delete''")
    case True
    then have "V = ''DELETE''" by (simp add: V_def spec_verb_def verbWords_def ToUpper_verbs)
    with k3 verb show ?thesis by simp
  next
    case False
    then show ?thesis
      by (auto simp: V_def spec_verb_def verbWords_def ToUpper_verbs)
  qed
  show ?thesis
  proof (cases isId)
    case True
    then have nidm: "\<not> idm" by (simp add: idm_def spec_isIdMethod_def)
    define base where "base = take (length snake - 3) snake"
    have rb: "rns = base @ ''/:id''"
      using True by (simp add: rns_def resource_parts isId_def base_def snake_def)
    have bfree: "CHR ''/'' \<notin> set base"
      using snake by (auto simp: base_def dest: in_set_takeD)
    define t where "t = (if pw = [] then [] else [W])"
    have "t = [] \<or> (\<exists>W. t = [W] \<and> W \<noteq> [] \<and> CHR ''/'' \<notin> set W)"
      using Wp by (auto simp: t_def)
    from resolve_id_request [OF bfree Vs this, of router]
    have "path (resolvePath router V (Join (base # ''0'' # t) ''/'')) = key"
      by (simp add: k3 rb nidm t_def)
    then show ?thesis by blast
  next
    case False
    have gm: "gapsMap router snake = map_option (\<lambda>g. Split g (CHR ''/'')) (Gap v)"
      using own v False by (auto simp: list_all_iff ownGap_def isId_def snake_def)
    have "rns = (case Gap v of Some gap \<Rightarrow> snake @ ''/'' @ gap | None \<Rightarrow> snake)"
      using False unfolding snake_def by (simp add: rns_def resource_parts(2) isId_def)
    moreover have "gapPart (gapsMap router snake)
        = (case Gap v of Some gap \<Rightarrow> ''/'' @ gap | None \<Rightarrow> [])"
      unfolding gm by (simp add: gapPart_def Join_Split split: option.splits)
    ultimately have gp: "rns = snake @ gapPart (gapsMap router snake)"
      by (simp split: option.splits)
    define W0 where "W0 = (if pw = [] then ''a'' else W)"
    define t where "t = (if pw = [] then [] else if idm then [W0, ''0''] else [W0])"
    have W0: "W0 \<noteq> []" "CHR ''/'' \<notin> set W0" "snd (ParseInt W0) \<noteq> None"
      using Wp ParseInt_plain [of "''a''"] by (auto simp: W0_def less_eq_char_def)
    have t: "t = [] \<or> t = [W0] \<or> t = [W0, ''0'']" by (simp add: t_def)
    from resolve_gap_request [OF _ Vs W0 t refl, of snake router] snake
    have "path (resolvePath router V
                (Join (snake # replicate (len_gaps (gapsMap router snake)) [] @ t) ''/'')) = key"
      using idm_pw by (auto simp: k3 gp t_def W0_def)
    then show ?thesis by blast
  qed
qed

theorem registered_key_has_request_witness:
  "NewRouter [res ''Users'' (Some ''profile'') [''Name'', ''PostNameId'']]
     = Inr \<lparr>methodMap = [''GET /users/profile/name'' \<mapsto> (0, 0),
                          ''POST /users/profile/name/:id'' \<mapsto> (0, 1)],
            gapsMap = [''users'' \<mapsto> [''profile'']]\<rparr>
   \<and> list_all wellNamed [res ''Users'' (Some ''profile'') [''Name'', ''PostNameId'']]
   \<and> list_all (ownGap \<lparr>methodMap = [''GET /users/profile/name'' \<mapsto> (0, 0),
                                      ''POST /users/profile/name/:id'' \<mapsto> (0, 1)],
                         gapsMap = [''users'' \<mapsto> [''profile'']]\<rparr>)
        [res ''Users'' (Some ''profile'') [''Name'', ''PostNameId'']]
   \<and> ''POST /users/profile/name/:id''
       \<in> dom [''GET /users/profile/name'' \<mapsto> (0 :: nat, 0 :: nat),
              ''POST /users/profile/name/:id'' \<mapsto> (0, 1)]
   \<and> take 8 ''POST /users/profile/name/:id'' \<noteq> ''DELETE /''
   \<and> (\<exists>httpVerb rawPath.
         path (resolvePath \<lparr>methodMap = [''GET /users/profile/name'' \<mapsto> (0, 0),
                                          ''POST /users/profile/name/:id'' \<mapsto> (0, 1)],
                             gapsMap = [''users'' \<mapsto> [''profile'']]\<rparr> httpVerb rawPath)
           = ''POST /users/profile/name/:id'')"
  using registered_key_has_request
    [of "[res ''Users'' (Some ''profile'') [''Name'', ''PostNameId'']]"
      "\<lparr>methodMap = [''GET /users/profile/name'' \<mapsto> (0, 0),
                      ''POST /users/profile/name/:id'' \<mapsto> (0, 1)],
        gapsMap = [''users'' \<mapsto> [''profile'']]\<rparr>"
      "''POST /users/profile/name/:id''"]
  by (simp add: key_eval wellNamed_def ownGap_def letters_def letter_def)

end
